theory Spec2Isabelle
  imports Complex_Main "HOL-Library.Signed_Division"
begin

section \<open>Streams\<close>

text \<open>
  A \<^verbatim>\<open>char\<close> is modelled by the \<^typ>\<open>int\<close> that \<^verbatim>\<open>static_cast<int>(curr)\<close> yields: an
  ASCII byte is itself, and where \<^verbatim>\<open>char\<close> is signed a byte above 127 is negative. An
  input stream is its state bit (\<^verbatim>\<open>!is\<close>) together with what its source still holds: each
  element is either the next character or \<open>None\<close>, an I/O fault of the underlying buffer.
\<close>

record istream =
  failed :: bool
  pending :: "int option list"

text \<open>\<^verbatim>\<open>is.get(curr)\<close>: the character read, if any, and the stream afterwards. A stream that
  is not good, the end of the data and a fault all make the call fail and leave the stream
  failed.\<close>

definition get :: "istream \<Rightarrow> int option \<times> istream" where
  "get ins =
     (if failed ins then (None, ins)
      else case pending ins of
             [] \<Rightarrow> (None, ins\<lparr>failed := True\<rparr>)
           | None # rest \<Rightarrow> (None, ins\<lparr>failed := True, pending := rest\<rparr>)
           | Some c # rest \<Rightarrow> (Some c, ins\<lparr>pending := rest\<rparr>))"

text \<open>The characters that the loop \<^verbatim>\<open>while (is.get(curr)) { ... }\<close> hands to its body, in
  order.\<close>

function read_all :: "istream \<Rightarrow> int list" where
  "read_all ins = (case get ins of (None, _) \<Rightarrow> [] | (Some cur, ins') \<Rightarrow> cur # read_all ins')"
  by pat_completeness auto
termination
  by (relation "measure (\<lambda>ins. length (pending ins))")
     (auto simp: get_def split: if_splits list.splits option.splits)

declare read_all.simps [simp del]

text \<open>\<^verbatim>\<open>std::getline(dict_is, line)\<close>: characters are extracted up to a newline, which is
  dropped, or up to the end of the data. The call fails when the stream is not good, when
  nothing at all could be extracted, and on a fault.\<close>

fun extract_line :: "int option list \<Rightarrow> int list \<Rightarrow> int list option \<times> int option list" where
  "extract_line [] line = (if line = [] then (None, []) else (Some line, []))"
| "extract_line (None # rest) line = (None, rest)"
| "extract_line (Some c # rest) line =
     (if c = 10 then (Some line, rest) else extract_line rest (line @ [c]))"

definition getline :: "istream \<Rightarrow> int list option \<times> istream" where
  "getline ins =
     (if failed ins then (None, ins)
      else case extract_line (pending ins) [] of
             (None, rest) \<Rightarrow> (None, ins\<lparr>failed := True, pending := rest\<rparr>)
           | (Some line, rest) \<Rightarrow> (Some line, ins\<lparr>pending := rest\<rparr>))"

record ostream =
  ofailed :: bool
  written :: "int list"

definition put :: "int \<Rightarrow> ostream \<Rightarrow> ostream" where
  "put c os = os\<lparr>written := written os @ [c]\<rparr>"

section \<open>cipher.h, cipher.cpp\<close>

definition kAsciiAlphabetSize :: int where
  "kAsciiAlphabetSize = 128"

datatype RetCode = kSuccess | kBadInputStream | kBadOutputStream

text \<open>The operator \<^verbatim>\<open>%\<close> of C++ truncates towards zero: it is \<open>smod\<close>, not \<open>mod\<close>.\<close>

definition AsciiCaesarCipher :: "istream \<Rightarrow> ostream \<Rightarrow> int \<Rightarrow> RetCode \<times> ostream" where
  "AsciiCaesarCipher ins os shift =
     (if failed ins then (kBadInputStream, os)
      else if ofailed os then (kBadOutputStream, os)
      else (kSuccess,
            fold (\<lambda>cur os. put ((cur + shift) smod kAsciiAlphabetSize) os) (read_all ins) os))"

section \<open>The character classification of the C library\<close>

text \<open>\<^verbatim>\<open>std::isalnum\<close>, \<^verbatim>\<open>std::isspace\<close> and \<^verbatim>\<open>std::tolower\<close> in the "C" locale, the locale
  of a program that never calls \<^verbatim>\<open>setlocale\<close>. Their argument has to be \<^verbatim>\<open>EOF\<close> or the value
  of an \<^verbatim>\<open>unsigned char\<close>; anything else is undefined behaviour.\<close>

definition ctype_arg_ok :: "int \<Rightarrow> bool" where
  "ctype_arg_ok c \<longleftrightarrow> c = - 1 \<or> (0 \<le> c \<and> c \<le> 255)"

definition isalnum :: "int \<Rightarrow> bool" where
  "isalnum c \<longleftrightarrow> (48 \<le> c \<and> c \<le> 57) \<or> (65 \<le> c \<and> c \<le> 90) \<or> (97 \<le> c \<and> c \<le> 122)"

definition isspace :: "int \<Rightarrow> bool" where
  "isspace c \<longleftrightarrow> c = 32 \<or> (9 \<le> c \<and> c \<le> 13)"

definition tolower :: "int \<Rightarrow> int" where
  "tolower c = (if 65 \<le> c \<and> c \<le> 90 then c + 32 else c)"

section \<open>cracker.cpp: the dictionary attack\<close>

datatype error = BadCtypeArgument | IndexOutOfBounds

type_synonym WordSet = "int list set"
type_synonym KeyScoreMap = "int \<rightharpoonup> int"

text \<open>\<^verbatim>\<open>scores[shift]++\<close> on a \<^verbatim>\<open>std::unordered_map<int, int>\<close>: a missing key is inserted
  with value 0 first. (The scores are unbounded here; the \<^verbatim>\<open>int\<close> of the source overflows
  only after more than \<open>2^31\<close> matched words.)\<close>

definition incr :: "KeyScoreMap \<Rightarrow> int \<Rightarrow> KeyScoreMap" where
  "incr scores shift = scores(shift \<mapsto> (case scores shift of None \<Rightarrow> 0 | Some v \<Rightarrow> v) + 1)"

function LoadDictionary :: "istream \<Rightarrow> WordSet" where
  "LoadDictionary dict_is =
     (case getline dict_is of
        (None, _) \<Rightarrow> {}
      | (Some line, dict_is') \<Rightarrow> insert line (LoadDictionary dict_is'))"
  by pat_completeness auto

lemma extract_line_shorter:
  "extract_line evs line = (r, rest) \<Longrightarrow> length rest \<le> length evs"
  by (induction evs line rule: extract_line.induct) (auto split: if_splits)

lemma extract_line_consumes:
  "extract_line evs [] = (Some line, rest) \<Longrightarrow> length rest < length evs"
proof (cases evs)
  case Nil
  assume "extract_line evs [] = (Some line, rest)"
  with Nil show ?thesis by simp
next
  case (Cons e evs')
  assume h: "extract_line evs [] = (Some line, rest)"
  show ?thesis
  proof (cases e)
    case None
    with h Cons show ?thesis by simp
  next
    case (Some c)
    with h Cons show ?thesis
      by (auto split: if_splits dest: extract_line_shorter)
  qed
qed

termination LoadDictionary
  by (relation "measure (\<lambda>ins. length (pending ins))")
     (auto simp: getline_def split: if_splits prod.splits option.splits
           dest: extract_line_consumes)

declare LoadDictionary.simps [simp del]

text \<open>A loop whose body may fail stops at the first failure.\<close>

fun for_each :: "('i \<Rightarrow> 's \<Rightarrow> error + 's) \<Rightarrow> 'i list \<Rightarrow> 's \<Rightarrow> error + 's" where
  "for_each body [] st = Inr st"
| "for_each body (i # rest) st =
     (case body i st of Inl e \<Rightarrow> Inl e | Inr st' \<Rightarrow> for_each body rest st')"

text \<open>The values of \<^verbatim>\<open>shift\<close> in \<^verbatim>\<open>for (int shift = 0; shift < kAsciiAlphabetSize; ++shift)\<close>.\<close>

definition all_shifts :: "int list" where
  "all_shifts = [0..kAsciiAlphabetSize - 1]"

text \<open>The state of the scan: \<^verbatim>\<open>std::string words[kAsciiAlphabetSize]\<close> and \<^verbatim>\<open>scores\<close>.\<close>

record dict_state =
  words :: "int \<Rightarrow> int list"
  scores :: KeyScoreMap

text \<open>The body of the inner loop of \<^verbatim>\<open>AsciiDictionaryAttack\<close> for the character \<open>cur\<close>
  and one \<open>shift\<close>.\<close>

definition dict_shift_step :: "WordSet \<Rightarrow> int \<Rightarrow> int \<Rightarrow> dict_state \<Rightarrow> error + dict_state" where
  "dict_shift_step dictionary cur shift st =
     (let tmp = (cur + shift) smod kAsciiAlphabetSize in
      if \<not> ctype_arg_ok tmp then Inl BadCtypeArgument
      else if isalnum tmp then
        Inr (st\<lparr>words := (words st)(shift := words st shift @ [tolower tmp])\<rparr>)
      else if words st shift \<noteq> [] \<and> isspace tmp then
        Inr ((if words st shift \<in> dictionary then st\<lparr>scores := incr (scores st) shift\<rparr> else st)
             \<lparr>words := (words st)(shift := [])\<rparr>)
      else Inr st)"

text \<open>The loop that checks the trailing words.\<close>

definition trailing_words :: "WordSet \<Rightarrow> dict_state \<Rightarrow> KeyScoreMap" where
  "trailing_words dictionary st =
     fold (\<lambda>shift sc. if words st shift \<in> dictionary then incr sc shift else sc)
          all_shifts (scores st)"

definition AsciiDictionaryAttack :: "istream \<Rightarrow> istream \<Rightarrow> error + KeyScoreMap" where
  "AsciiDictionaryAttack ins dict_is =
     (let dictionary = LoadDictionary dict_is in
      case for_each (\<lambda>cur. for_each (dict_shift_step dictionary cur) all_shifts)
                    (read_all ins) \<lparr>words = (\<lambda>_. []), scores = Map.empty\<rparr> of
        Inl e \<Rightarrow> Inl e
      | Inr st \<Rightarrow> Inr (trailing_words dictionary st))"

section \<open>Double-precision arithmetic\<close>

text \<open>
  A \<^verbatim>\<open>double\<close> is a finite real, an infinity or a NaN. The result of an operation on finite
  values is the exact result rounded by \<open>rnd\<close>, and an infinity when the rounded result is
  beyond the largest finite \<^verbatim>\<open>double\<close>. The rounding function is a parameter of the model:
  what is proved holds for every rounding that satisfies \<open>rounding\<close> below, as rounding to
  nearest (ties to even) of binary64 does. The sign of zero is not modelled; the only
  divisor of the program is a count, which is never \<open>-0.0\<close>.
\<close>

datatype dbl = Fin real | PInf | NInf | NaN

definition DBL_MAX :: real where
  "DBL_MAX = (2 ^ 53 - 1) * 2 ^ 971"

definition fin :: "(real \<Rightarrow> real) \<Rightarrow> real \<Rightarrow> dbl" where
  "fin rnd x = (let r = rnd x in if DBL_MAX < r then PInf else if r < - DBL_MAX then NInf else Fin r)"

fun dadd :: "(real \<Rightarrow> real) \<Rightarrow> dbl \<Rightarrow> dbl \<Rightarrow> dbl" where
  "dadd rnd (Fin x) (Fin y) = fin rnd (x + y)"
| "dadd rnd NaN _ = NaN"
| "dadd rnd _ NaN = NaN"
| "dadd rnd PInf NInf = NaN"
| "dadd rnd NInf PInf = NaN"
| "dadd rnd PInf _ = PInf"
| "dadd rnd _ PInf = PInf"
| "dadd rnd NInf _ = NInf"
| "dadd rnd _ NInf = NInf"

fun dneg :: "dbl \<Rightarrow> dbl" where
  "dneg (Fin x) = Fin (- x)"
| "dneg PInf = NInf"
| "dneg NInf = PInf"
| "dneg NaN = NaN"

definition dsub :: "(real \<Rightarrow> real) \<Rightarrow> dbl \<Rightarrow> dbl \<Rightarrow> dbl" where
  "dsub rnd a b = dadd rnd a (dneg b)"

fun dabs :: "dbl \<Rightarrow> dbl" where
  "dabs (Fin x) = Fin \<bar>x\<bar>"
| "dabs PInf = PInf"
| "dabs NInf = PInf"
| "dabs NaN = NaN"

fun ddiv :: "(real \<Rightarrow> real) \<Rightarrow> dbl \<Rightarrow> dbl \<Rightarrow> dbl" where
  "ddiv rnd (Fin x) (Fin y) =
     (if y = 0 then (if x = 0 then NaN else if 0 < x then PInf else NInf)
      else fin rnd (x / y))"
| "ddiv rnd NaN _ = NaN"
| "ddiv rnd _ NaN = NaN"
| "ddiv rnd (Fin x) _ = Fin 0"
| "ddiv rnd PInf (Fin y) = (if 0 \<le> y then PInf else NInf)"
| "ddiv rnd NInf (Fin y) = (if 0 \<le> y then NInf else PInf)"
| "ddiv rnd PInf PInf = NaN"
| "ddiv rnd PInf NInf = NaN"
| "ddiv rnd NInf PInf = NaN"
| "ddiv rnd NInf NInf = NaN"

text \<open>The comparisons \<^verbatim>\<open><\<close> and \<^verbatim>\<open>==\<close>: both are false as soon as one side is a NaN.\<close>

fun dless :: "dbl \<Rightarrow> dbl \<Rightarrow> bool" where
  "dless (Fin x) (Fin y) \<longleftrightarrow> x < y"
| "dless NaN _ \<longleftrightarrow> False"
| "dless _ NaN \<longleftrightarrow> False"
| "dless _ NInf \<longleftrightarrow> False"
| "dless PInf _ \<longleftrightarrow> False"
| "dless NInf _ \<longleftrightarrow> True"
| "dless _ PInf \<longleftrightarrow> True"

definition deq :: "dbl \<Rightarrow> dbl \<Rightarrow> bool" where
  "deq a b \<longleftrightarrow> a = b \<and> a \<noteq> NaN"

text \<open>\<^verbatim>\<open>x++\<close> on a \<^verbatim>\<open>double\<close>.\<close>

definition dinc :: "(real \<Rightarrow> real) \<Rightarrow> dbl \<Rightarrow> dbl" where
  "dinc rnd x = dadd rnd x (Fin 1)"

text \<open>What is assumed of the rounding: it is monotone, it keeps the integers up to \<open>2^53\<close>,
  and \<open>2^53 + 1\<close>, which lies halfway between two doubles, goes to the even one.\<close>

definition rounding :: "(real \<Rightarrow> real) \<Rightarrow> bool" where
  "rounding rnd \<longleftrightarrow>
     (\<forall>x y. x \<le> y \<longrightarrow> rnd x \<le> rnd y) \<and>
     (\<forall>k::int. \<bar>k\<bar> \<le> 2 ^ 53 \<longrightarrow> rnd (of_int k) = of_int k) \<and>
     rnd (2 ^ 53 + 1) = 2 ^ 53"

section \<open>cracker.cpp: the frequency analysis attack\<close>

text \<open>\<^verbatim>\<open>std::array<double, 128>\<close> and \<^verbatim>\<open>std::array<CharFrequencies, 128>\<close>, as functions of the
  index.\<close>

type_synonym CharFrequencies = "int \<Rightarrow> dbl"
type_synonym CharFrequencyArray = "int \<Rightarrow> CharFrequencies"

definition kAsciiFreqDistro :: "real list" where
  "kAsciiFreqDistro = [
   0, 0, 0, 0,
   0, 0.00000006338218895840436, 0, 0,
   0, 0.00000012676437791680872, 0.019578060965172565, 0,
   0, 0, 0, 0,
   0, 0, 0, 0,
   0, 0, 0, 0,
   0, 0, 0, 0.00000006338218895840436,
   0, 0, 0.00000006338218895840436, 0,
   0.167564443682168, 0.0000005070575116672349, 0.0015754276887500987, 0,
   0.0000005070575116672349, 0, 0.0000020282300466689395, 0.0015078622753204398,
   0.0003307916441739124, 0.0003314254660634964, 0.0000004436753227088305, 0.0000015211725350017046,
   0.008634492219614468, 0.002076717421222119, 0.011055184780313847, 0.000519607185080999,
   0.005918945715880591, 0.004937789430804492, 0.002756237869045172, 0.0021865587546870337,
   0.0018385271551164353, 0.0025269211093936652, 0.0019199098857390264, 0.0018243295447897528,
   0.002552781042488694, 0.002442242504945237, 0.00012036277683200988, 0.00000741571610813331,
   0.00044107665296153596, 0.00000025352875583361743, 0.0004404428310719519, 0.000004626899793963519,
   0.00000006338218895840436, 0.0024774830020061096, 0.0017387002075069484, 0.002987392712176473,
   0.0010927723198318497, 0.0012938206232079082, 0.001220297284016159, 0.0009310209736100016,
   0.0008752446473266058, 0.0020910417959267183, 0.0008814561018445294, 0.0003808001912620934,
   0.0010044809306127922, 0.0018134911904778657, 0.0012758834637326799, 0.0008210528757671701,
   0.00138908405321239, 0.00010001709417636208, 0.0011037374385216535, 0.0030896915651553373,
   0.0030701064687671904, 0.0010426370083657518, 0.0002556203680692448, 0.0008048270353938186,
   0.00006572732994986532, 0.00025194420110965734, 0.00008619977698342993, 0.000000697204078542448,
   0, 0.0000006338218895840436, 0.0000022183766135441526, 0.00000012676437791680872,
   0, 0.0612553996079051, 0.01034644514338097, 0.02500268898936656,
   0.03188948073064199, 0.08610229517681191, 0.015750347191785568, 0.012804659959943725,
   0.02619237267611581, 0.05480626188138746, 0.000617596049210692, 0.004945712204424292,
   0.03218192615049607, 0.018140172626462205, 0.05503703643138501, 0.0541904405334676,
   0.017362092874808832, 0.00100853739070613, 0.051525029341199825, 0.0518864979648296,
   0.0632964962389326, 0.019247776378510318, 0.007819143740853554, 0.009565830104169261,
   0.0023064144740073764, 0.010893686962847832, 0.0005762708620098124, 0.00000006338218895840436,
   0, 0, 0.00000019014656687521307, 0.0000031057272589618137]"

text \<open>The table entry as the \<^verbatim>\<open>double\<close> that the compiler makes of the decimal literal.\<close>

definition freq_distro :: "(real \<Rightarrow> real) \<Rightarrow> int \<Rightarrow> dbl" where
  "freq_distro rnd i = fin rnd (kAsciiFreqDistro ! nat i)"

definition ManhattanDist :: "(real \<Rightarrow> real) \<Rightarrow> CharFrequencies \<Rightarrow> dbl" where
  "ManhattanDist rnd observed =
     fold (\<lambda>i sum. dadd rnd sum (dabs (dsub rnd (observed i) (freq_distro rnd i))))
          [0..kAsciiAlphabetSize - 1] (Fin 0)"

text \<open>The body of the loop of \<^verbatim>\<open>FindMinDistShifts\<close> on the state \<^verbatim>\<open>(scores, min_dist)\<close>.\<close>

definition min_dist_step ::
  "(real \<Rightarrow> real) \<Rightarrow> CharFrequencyArray \<Rightarrow> int \<Rightarrow> KeyScoreMap \<times> dbl \<Rightarrow> KeyScoreMap \<times> dbl" where
  "min_dist_step rnd freqs shift st =
     (let scores = fst st; min_dist = snd st; dist = ManhattanDist rnd (freqs shift) in
      if dless dist min_dist then (incr Map.empty shift, dist)
      else if deq dist min_dist then (incr scores shift, min_dist)
      else (scores, min_dist))"

definition FindMinDistShifts :: "(real \<Rightarrow> real) \<Rightarrow> CharFrequencyArray \<Rightarrow> KeyScoreMap" where
  "FindMinDistShifts rnd freqs =
     fst (fold (min_dist_step rnd freqs) all_shifts (Map.empty, Fin DBL_MAX))"

text \<open>\<^verbatim>\<open>freqs[shift][tmp]++\<close>. A \<^verbatim>\<open>std::array\<close> does not check its index: outside of
  \<open>0..127\<close> the access is undefined behaviour.\<close>

definition tally ::
  "(real \<Rightarrow> real) \<Rightarrow> int \<Rightarrow> int \<Rightarrow> CharFrequencyArray \<Rightarrow> error + CharFrequencyArray" where
  "tally rnd cur shift freqs =
     (let tmp = (cur + shift) smod kAsciiAlphabetSize in
      if tmp < 0 \<or> kAsciiAlphabetSize \<le> tmp then Inl IndexOutOfBounds
      else Inr (freqs(shift := (freqs shift)(tmp := dinc rnd (freqs shift tmp)))))"

text \<open>The body of the outer loop on the state \<^verbatim>\<open>(freqs, num_chars)\<close>.\<close>

definition freq_step ::
  "(real \<Rightarrow> real) \<Rightarrow> int \<Rightarrow> CharFrequencyArray \<times> dbl \<Rightarrow> error + CharFrequencyArray \<times> dbl" where
  "freq_step rnd cur st =
     (case for_each (tally rnd cur) all_shifts (fst st) of
        Inl e \<Rightarrow> Inl e
      | Inr freqs \<Rightarrow> Inr (freqs, dinc rnd (snd st)))"

text \<open>
  The source declares \<^verbatim>\<open>CharFrequencyArray freqs;\<close> without an initializer, so the array
  starts with whatever its memory holds. These initial contents are the parameter
  \<open>freqs0\<close>, and nothing is assumed of them.
\<close>

definition AsciiFrequencyAnalysisAttack ::
  "(real \<Rightarrow> real) \<Rightarrow> CharFrequencyArray \<Rightarrow> istream \<Rightarrow> error + KeyScoreMap" where
  "AsciiFrequencyAnalysisAttack rnd freqs0 ins =
     (case for_each (freq_step rnd) (read_all ins) (freqs0, Fin 0) of
        Inl e \<Rightarrow> Inl e
      | Inr (freqs, num_chars) \<Rightarrow>
          Inr (FindMinDistShifts rnd (\<lambda>shift i. ddiv rnd (freqs shift i) num_chars)))"

text \<open>
  The contents of \<^verbatim>\<open>freqs\<close> when the function returns: every bucket divided by
  \<^verbatim>\<open>num_chars\<close>. The array is a local variable, the function does not clear it, and
  this is what a later call finds in its own \<^verbatim>\<open>freqs\<close> when its frame lies at the same
  address.
\<close>

definition freqs_at_return ::
  "(real \<Rightarrow> real) \<Rightarrow> CharFrequencyArray \<Rightarrow> istream \<Rightarrow> error + CharFrequencyArray" where
  "freqs_at_return rnd freqs0 ins =
     (case for_each (freq_step rnd) (read_all ins) (freqs0, Fin 0) of
        Inl e \<Rightarrow> Inl e
      | Inr (freqs, num_chars) \<Rightarrow> Inr (\<lambda>shift i. ddiv rnd (freqs shift i) num_chars))"

section \<open>One candidate shift at a time\<close>

text \<open>
  The scan treats the 128 candidate shifts independently. For one shift, \<open>word_step\<close> is
  what a shifted character \<open>tmp\<close> does to the pair of the word in progress and the score
  (\<open>None\<close> when the key is not in the map), and \<open>key_score\<close> is the entry of the result.
\<close>

definition bump :: "int option \<Rightarrow> int option" where
  "bump v = Some ((case v of None \<Rightarrow> 0 | Some n \<Rightarrow> n) + 1)"

definition word_step :: "WordSet \<Rightarrow> int \<Rightarrow> int list \<times> int option \<Rightarrow> int list \<times> int option" where
  "word_step dictionary tmp wv =
     (if isalnum tmp then (fst wv @ [tolower tmp], snd wv)
      else if fst wv \<noteq> [] \<and> isspace tmp then
        ([], if fst wv \<in> dictionary then bump (snd wv) else snd wv)
      else wv)"

definition shift_scan :: "WordSet \<Rightarrow> int \<Rightarrow> int list \<Rightarrow> int list \<times> int option \<Rightarrow> int list \<times> int option" where
  "shift_scan dictionary shift cs wv =
     fold (\<lambda>cur. word_step dictionary ((cur + shift) smod kAsciiAlphabetSize)) cs wv"

definition final_score :: "WordSet \<Rightarrow> int list \<times> int option \<Rightarrow> int option" where
  "final_score dictionary wv = (if fst wv \<in> dictionary then bump (snd wv) else snd wv)"

definition key_score :: "WordSet \<Rightarrow> int \<Rightarrow> int list \<Rightarrow> int option" where
  "key_score dictionary shift cs = final_score dictionary (shift_scan dictionary shift cs ([], None))"

text \<open>The precondition of both attacks: every byte is an ASCII code.\<close>

definition ascii :: "int list \<Rightarrow> bool" where
  "ascii cs \<longleftrightarrow> (\<forall>c \<in> set cs. 0 \<le> c \<and> c \<le> 127)"

text \<open>A good stream that holds the given characters, and the bytes of a string literal.\<close>

definition stream_of :: "int list \<Rightarrow> istream" where
  "stream_of cs = \<lparr>failed = False, pending = map Some cs\<rparr>"

definition bytes :: "string \<Rightarrow> int list" where
  "bytes s = map of_char s"

text \<open>The word and the score of one shift in a state of the scan.\<close>

definition cell :: "dict_state \<Rightarrow> int \<Rightarrow> int list \<times> int option" where
  "cell st s = (words st s, scores st s)"

text \<open>The words that one shift looks up in the dictionary, in order, given the shifted
  characters and the word in progress: one at each whitespace that ends a non-empty
  word, and the trailing word at the end of the input.\<close>

fun lookups :: "int list \<Rightarrow> int list \<Rightarrow> int list list" where
  "lookups [] w = [w]"
| "lookups (tmp # rest) w =
     (if isalnum tmp then lookups rest (w @ [tolower tmp])
      else if w \<noteq> [] \<and> isspace tmp then w # lookups rest []
      else lookups rest w)"

definition matches :: "WordSet \<Rightarrow> int \<Rightarrow> int list \<Rightarrow> nat" where
  "matches dictionary shift cs =
     length (filter (\<lambda>w. w \<in> dictionary)
               (lookups (map (\<lambda>cur. (cur + shift) smod kAsciiAlphabetSize) cs) []))"

text \<open>The entry of a result, if there is one, at a key.\<close>

definition result_at :: "error + KeyScoreMap \<Rightarrow> int \<Rightarrow> error + int option" where
  "result_at r k = (case r of Inl e \<Rightarrow> Inl e | Inr m \<Rightarrow> Inr (m k))"

text \<open>A score after \<open>n\<close> more hits.\<close>

definition add_hits :: "int option \<Rightarrow> nat \<Rightarrow> int option" where
  "add_hits v n = (if n = 0 then v else Some ((case v of None \<Rightarrow> 0 | Some k \<Rightarrow> k) + int n))"

section \<open>The frequency attack, shift by shift\<close>

text \<open>A key of the result of \<open>FindMinDistShifts\<close>, given the distance \<open>D j\<close> of every shift:
  its distance is an ordinary number, not above the initial \<^verbatim>\<open>min_dist\<close>, and no shift has
  a smaller one.\<close>

definition min_dist_key :: "(int \<Rightarrow> dbl) \<Rightarrow> int \<Rightarrow> bool" where
  "min_dist_key D k \<longleftrightarrow>
     D k \<noteq> NaN \<and> \<not> dless (Fin DBL_MAX) (D k) \<and> (\<forall>j \<in> {0..127}. \<not> dless (D j) (D k))"

text \<open>The bucket \<open>i\<close> of a shift after the characters \<open>cs\<close>, the bucket divided by the
  number of characters, and the distance of the shift, as the code computes them from the
  initial contents \<open>freqs0\<close> of the array.\<close>

definition tallied :: "(real \<Rightarrow> real) \<Rightarrow> CharFrequencyArray \<Rightarrow> int list \<Rightarrow> int \<Rightarrow> int \<Rightarrow> dbl" where
  "tallied rnd freqs0 cs shift i =
     (dinc rnd ^^ length (filter (\<lambda>cur. (cur + shift) smod kAsciiAlphabetSize = i) cs))
       (freqs0 shift i)"

definition observed :: "(real \<Rightarrow> real) \<Rightarrow> CharFrequencyArray \<Rightarrow> int list \<Rightarrow> int \<Rightarrow> int \<Rightarrow> dbl" where
  "observed rnd freqs0 cs shift i =
     ddiv rnd (tallied rnd freqs0 cs shift i) ((dinc rnd ^^ length cs) (Fin 0))"

definition shift_dist :: "(real \<Rightarrow> real) \<Rightarrow> CharFrequencyArray \<Rightarrow> int list \<Rightarrow> int \<Rightarrow> dbl" where
  "shift_dist rnd freqs0 cs shift = ManhattanDist rnd (observed rnd freqs0 cs shift)"

text \<open>
  The same three in the words of the specification: the histogram of the shifted
  characters, a count as a \<^verbatim>\<open>double\<close> (counting in steps of one is exact up to \<open>2^53\<close> and
  stays there), the normalized histogram, and its distance to the reference table.
\<close>

definition histogram :: "int list \<Rightarrow> int \<Rightarrow> int \<Rightarrow> nat" where
  "histogram cs shift i = length (filter (\<lambda>cur. (cur + shift) mod 128 = i) cs)"

definition counted :: "nat \<Rightarrow> dbl" where
  "counted n = Fin (real (min n (2 ^ 53)))"

definition normalized :: "(real \<Rightarrow> real) \<Rightarrow> int list \<Rightarrow> int \<Rightarrow> int \<Rightarrow> dbl" where
  "normalized rnd cs shift i = ddiv rnd (counted (histogram cs shift i)) (counted (length cs))"

definition l1_distance :: "(real \<Rightarrow> real) \<Rightarrow> int list \<Rightarrow> int \<Rightarrow> dbl" where
  "l1_distance rnd cs shift = ManhattanDist rnd (normalized rnd cs shift)"

text \<open>An instance of \<open>rounding\<close>: exact between \<open>-2^53\<close> and \<open>2^53\<close>, and saturating
  outside.\<close>

definition saturating :: "real \<Rightarrow> real" where
  "saturating x = (if 2 ^ 53 < x then 2 ^ 53 else if x < - (2 ^ 53) then - (2 ^ 53) else x)"

text \<open>The scenario of the specification: \<open>attack at dawn\<close> encrypted with key 27 by
  \<open>AsciiCaesarCipher\<close>, and the dictionary of its three words.\<close>

definition fresh_ostream :: ostream where
  "fresh_ostream = \<lparr>ofailed = False, written = []\<rparr>"

definition dawn_ciphertext :: istream where
  "dawn_ciphertext =
     stream_of (written (snd (AsciiCaesarCipher (stream_of (bytes ''attack at dawn''))
                                                fresh_ostream 27)))"

definition dawn_dictionary :: istream where
  "dawn_dictionary = stream_of (bytes ''attack'' @ [10] @ bytes ''at'' @ [10] @ bytes ''dawn'' @ [10])"

text \<open>The words of a text as the scan of shift 0 forms them: the non-empty words that
  it looks up.\<close>

definition plaintext_words :: "int list \<Rightarrow> int list list" where
  "plaintext_words cs = filter (\<lambda>w. w \<noteq> []) (lookups cs [])"

text \<open>The score of the candidate \<open>shift\<close> is the expected one.\<close>

definition key_score_is :: "WordSet \<Rightarrow> int list \<Rightarrow> (int \<Rightarrow> int option) \<Rightarrow> int \<Rightarrow> bool" where
  "key_score_is dictionary cs expected shift \<longleftrightarrow>
     key_score dictionary shift cs = expected shift"

section \<open>Streams: what a loop over a stream sees\<close>

lemma read_all_failed: "failed ins \<Longrightarrow> read_all ins = []"
  by (simp add: read_all.simps [of ins] get_def)

lemma read_all_pending:
  "\<not> failed ins \<Longrightarrow> read_all ins = map the (takeWhile (\<lambda>e. e \<noteq> None) (pending ins))"
proof (induction "pending ins" arbitrary: ins)
  case Nil
  then show ?case by (simp add: read_all.simps [of ins] get_def)
next
  case (Cons e evs)
  show ?case
  proof (cases e)
    case None
    with Cons.hyps(2) [symmetric] Cons.prems show ?thesis
      by (simp add: read_all.simps [of ins] get_def)
  next
    case (Some c)
    have "read_all (ins\<lparr>pending := evs\<rparr>) =
            map the (takeWhile (\<lambda>e. e \<noteq> None) (pending (ins\<lparr>pending := evs\<rparr>)))"
      using Cons.prems by (intro Cons.hyps(1)) simp_all
    with Some Cons.hyps(2) [symmetric] Cons.prems show ?thesis
      by (simp add: read_all.simps [of ins] get_def)
  qed
qed

lemma read_all_stream_of [simp]: "read_all (stream_of cs) = cs"
  by (simp add: read_all_pending stream_of_def takeWhile_map comp_def)

lemma read_all_fault:
  "read_all \<lparr>failed = False, pending = map Some cs @ None # rest\<rparr> = cs"
  by (simp add: read_all_pending takeWhile_append takeWhile_map comp_def)

lemma LoadDictionary_nothing:
  assumes "read_all dict_is = []"
  shows "LoadDictionary dict_is = {}"
proof (cases "failed dict_is")
  case True
  then show ?thesis by (simp add: LoadDictionary.simps [of dict_is] getline_def)
next
  case False
  with assms have "takeWhile (\<lambda>e. e \<noteq> None) (pending dict_is) = []"
    by (simp add: read_all_pending)
  then have "pending dict_is = [] \<or> (\<exists>rest. pending dict_is = None # rest)"
    by (cases "pending dict_is") (auto split: if_splits)
  then show ?thesis
    by (auto simp: LoadDictionary.simps [of dict_is] getline_def)
qed

section \<open>The shifted character\<close>

lemma smod_nonneg: "0 \<le> a \<Longrightarrow> a smod kAsciiAlphabetSize = a mod kAsciiAlphabetSize"
  by (cases "a = 0") (simp_all add: smod_int_alt_def kAsciiAlphabetSize_def)

lemma shifted_range:
  "0 \<le> c \<Longrightarrow> 0 \<le> s \<Longrightarrow>
     0 \<le> (c + s) smod kAsciiAlphabetSize \<and> (c + s) smod kAsciiAlphabetSize \<le> 127"
  by (simp add: smod_nonneg) (simp add: kAsciiAlphabetSize_def)

lemma set_all_shifts: "set all_shifts = {0..127}"
  by (simp add: all_shifts_def kAsciiAlphabetSize_def)

lemma distinct_all_shifts: "distinct all_shifts"
  by (simp add: all_shifts_def)

section \<open>The dictionary attack, shift by shift\<close>

lemma incr_bump: "incr sc s = sc(s := bump (sc s))"
  by (simp add: incr_def bump_def)

lemma dict_shift_step_cell:
  assumes "dict_shift_step d cur s st = Inr st'"
  shows "cell st' = (cell st)(s := word_step d ((cur + s) smod kAsciiAlphabetSize) (cell st s))"
  using assms
  by (auto simp: dict_shift_step_def word_step_def cell_def Let_def incr_bump fun_eq_iff
           split: if_splits)

lemma dict_shift_step_ok:
  "ctype_arg_ok ((cur + s) smod kAsciiAlphabetSize) \<Longrightarrow> \<exists>st'. dict_shift_step d cur s st = Inr st'"
  by (simp add: dict_shift_step_def Let_def)

lemma inner_cell:
  "for_each (dict_shift_step d cur) ss st = Inr st' \<Longrightarrow> distinct ss \<Longrightarrow>
   cell st' s = (if s \<in> set ss then word_step d ((cur + s) smod kAsciiAlphabetSize) (cell st s)
                 else cell st s)"
proof (induction ss arbitrary: st)
  case Nil
  then show ?case by simp
next
  case (Cons a ss)
  from Cons.prems(1) obtain st1 where
    a: "dict_shift_step d cur a st = Inr st1" and r: "for_each (dict_shift_step d cur) ss st1 = Inr st'"
    by (auto split: sum.splits)
  from Cons.prems(2) have d: "distinct ss" and na: "a \<notin> set ss" by auto
  show ?case
    using Cons.IH [OF r d] dict_shift_step_cell [OF a] na by auto
qed

lemma outer_cell:
  "for_each (\<lambda>cur. for_each (dict_shift_step d cur) all_shifts) cs st = Inr st' \<Longrightarrow>
   cell st' s = (if s \<in> set all_shifts then shift_scan d s cs (cell st s) else cell st s)"
proof (induction cs arbitrary: st)
  case Nil
  then show ?case by (simp add: shift_scan_def)
next
  case (Cons c cs)
  from Cons.prems obtain st1 where
    a: "for_each (dict_shift_step d c) all_shifts st = Inr st1"
    and r: "for_each (\<lambda>cur. for_each (dict_shift_step d cur) all_shifts) cs st1 = Inr st'"
    by (auto split: sum.splits)
  show ?case
    using Cons.IH [OF r] inner_cell [OF a distinct_all_shifts, of s]
    by (simp add: shift_scan_def)
qed

lemma trailing_fold:
  "distinct ss \<Longrightarrow>
   fold (\<lambda>shift sc. if w shift \<in> d then incr sc shift else sc) ss sc0 s =
     (if s \<in> set ss \<and> w s \<in> d then bump (sc0 s) else sc0 s)"
  by (induction ss arbitrary: sc0) (auto simp: incr_bump)

lemma trailing_words_apply:
  "trailing_words d st s =
     (if s \<in> set all_shifts then final_score d (cell st s) else scores st s)"
  unfolding trailing_words_def trailing_fold [OF distinct_all_shifts]
  by (simp add: final_score_def cell_def)

lemma dict_attack_score:
  assumes "AsciiDictionaryAttack ins dict_is = Inr m"
  shows "m s = (if 0 \<le> s \<and> s \<le> 127 then key_score (LoadDictionary dict_is) s (read_all ins)
                else None)"
proof -
  let ?d = "LoadDictionary dict_is"
  let ?st0 = "\<lparr>words = (\<lambda>_. []), scores = Map.empty\<rparr>"
  from assms obtain st where
    run: "for_each (\<lambda>cur. for_each (dict_shift_step ?d cur) all_shifts) (read_all ins) ?st0 = Inr st"
    and m: "m = trailing_words ?d st"
    by (auto simp: AsciiDictionaryAttack_def Let_def split: sum.splits)
  have c: "cell st s = (if s \<in> set all_shifts then shift_scan ?d s (read_all ins) ([], None)
                        else ([], None))"
    using outer_cell [OF run, of s] by (simp add: cell_def)
  have v: "scores st s = snd (cell st s)"
    by (simp add: cell_def)
  show ?thesis
    unfolding m trailing_words_apply v c
    by (simp add: key_score_def set_all_shifts)
qed

lemma inner_ok:
  "0 \<le> cur \<Longrightarrow> cur \<le> 127 \<Longrightarrow> \<forall>s \<in> set ss. 0 \<le> s \<Longrightarrow>
   \<exists>st'. for_each (dict_shift_step d cur) ss st = Inr st'"
proof (induction ss arbitrary: st)
  case Nil
  then show ?case by simp
next
  case (Cons a ss)
  have "ctype_arg_ok ((cur + a) smod kAsciiAlphabetSize)"
    using shifted_range [of cur a] Cons.prems by (simp add: ctype_arg_ok_def)
  then obtain st1 where "dict_shift_step d cur a st = Inr st1"
    using dict_shift_step_ok by blast
  then show ?case using Cons by simp
qed

lemma outer_ok:
  "ascii cs \<Longrightarrow> \<exists>st'. for_each (\<lambda>cur. for_each (dict_shift_step d cur) all_shifts) cs st = Inr st'"
proof (induction cs arbitrary: st)
  case Nil
  then show ?case by simp
next
  case (Cons c cs)
  then have "0 \<le> c" "c \<le> 127" "ascii cs" by (auto simp: ascii_def)
  moreover from this obtain st1 where "for_each (dict_shift_step d c) all_shifts st = Inr st1"
    using inner_ok [of c all_shifts d st] by (auto simp: set_all_shifts)
  ultimately show ?case using Cons.IH by simp
qed

lemma dict_attack_total:
  "ascii (read_all ins) \<Longrightarrow> \<exists>m. AsciiDictionaryAttack ins dict_is = Inr m"
  using outer_ok [of "read_all ins" "LoadDictionary dict_is"
                     "\<lparr>words = (\<lambda>_. []), scores = Map.empty\<rparr>"]
  by (auto simp: AsciiDictionaryAttack_def Let_def split: sum.splits)

lemma dict_attack_result_at:
  "ascii (read_all ins) \<Longrightarrow> 0 \<le> s \<Longrightarrow> s \<le> 127 \<Longrightarrow>
   result_at (AsciiDictionaryAttack ins dict_is) s =
     Inr (key_score (LoadDictionary dict_is) s (read_all ins))"
  using dict_attack_total [of ins dict_is] dict_attack_score [of ins dict_is _ s]
  by (auto simp: result_at_def)

text \<open>The score of a key is the number of looked-up words that are in the dictionary.\<close>

lemma add_hits_bump: "add_hits (bump v) n = add_hits v (Suc n)"
  by (simp add: add_hits_def bump_def split: option.splits)

lemma bump_add_hits: "bump v = add_hits v (Suc 0)"
  by (simp add: add_hits_def bump_def split: option.splits)

lemma fold_word_step_lookups:
  "final_score d (fold (word_step d) ts (w, v)) =
   add_hits v (length (filter (\<lambda>x. x \<in> d) (lookups ts w)))"
proof (induction ts arbitrary: w v)
  case Nil
  then show ?case by (simp add: final_score_def bump_add_hits add_hits_def)
next
  case (Cons t ts)
  consider (alnum) "isalnum t" | (space) "\<not> isalnum t" "w \<noteq> [] \<and> isspace t"
    | (other) "\<not> isalnum t" "\<not> (w \<noteq> [] \<and> isspace t)" by blast
  then show ?case
  proof cases
    case alnum
    then have ws: "word_step d t (w, v) = (w @ [tolower t], v)"
      and lk: "lookups (t # ts) w = lookups ts (w @ [tolower t])"
      by (simp_all add: word_step_def)
    show ?thesis
      using Cons.IH [of "w @ [tolower t]" v] by (simp add: ws lk del: lookups.simps)
  next
    case space
    then have ws: "word_step d t (w, v) = ([], if w \<in> d then bump v else v)"
      and lk: "lookups (t # ts) w = w # lookups ts []"
      by (simp_all add: word_step_def)
    show ?thesis
      using Cons.IH [of "[]" "if w \<in> d then bump v else v"]
      by (simp add: ws lk add_hits_bump del: lookups.simps)
  next
    case other
    then have ws: "word_step d t (w, v) = (w, v)"
      and lk: "lookups (t # ts) w = lookups ts w"
      by (auto simp: word_step_def)
    show ?thesis
      using Cons.IH [of w v] by (simp add: ws lk del: lookups.simps)
  qed
qed

lemma shift_scan_map:
  "shift_scan d s cs wv =
     fold (word_step d) (map (\<lambda>cur. (cur + s) smod kAsciiAlphabetSize) cs) wv"
  by (simp add: shift_scan_def fold_map comp_def)

lemma key_score_matches:
  "key_score d s cs = (if matches d s cs = 0 then None else Some (int (matches d s cs)))"
  unfolding key_score_def shift_scan_map fold_word_step_lookups matches_def
  by (simp add: add_hits_def)

section \<open>The claims about the dictionary attack\<close>



text \<open>
  C6. After the pass the code looks the trailing word of every shift up, also when that
  word is empty. With the dictionary lines \<open>at\<close> and the empty line, and the ciphertext
  \<open>at\<close> followed by a space, shift 0 has matched \<open>at\<close> at the space, its trailing word is
  empty, and its score is 2: the empty trailing word was looked up and counted.
\<close>

theorem C6_trailing_lookup_of_empty_word:
  "result_at (AsciiDictionaryAttack (stream_of (bytes ''at ''))
                                    (stream_of (bytes ''at'' @ [10, 10]))) 0 = Inr (Some 2)"
proof -
  have a: "ascii (read_all (stream_of (bytes ''at '')))"
    by (simp add: ascii_def bytes_def)
  have d: "LoadDictionary (stream_of (bytes ''at'' @ [10, 10])) = {bytes ''at'', []}"
    by code_simp
  have k: "key_score {bytes ''at'', []} 0 (bytes ''at '') = Some 2"
    by code_simp
  show ?thesis
    using dict_attack_result_at [OF a, of 0] by (simp add: d k)
qed

text \<open>
  C7. When the dictionary stream is not readable or delivers no byte, the dictionary
  attack on ASCII ciphertext returns the empty map.
\<close>

theorem C7_no_dictionary:
  assumes "ascii (read_all ins)" and "failed dict_is \<or> read_all dict_is = []"
  shows "AsciiDictionaryAttack ins dict_is = Inr Map.empty"
proof -
  from assms(2) have "read_all dict_is = []"
    using read_all_failed by blast
  then have d: "LoadDictionary dict_is = {}" by (rule LoadDictionary_nothing)
  from assms(1) obtain m where m: "AsciiDictionaryAttack ins dict_is = Inr m"
    using dict_attack_total by blast
  have "m s = None" for s
    using dict_attack_score [OF m, of s]
    by (simp add: d key_score_matches matches_def)
  with m show ?thesis by (simp add: fun_eq_iff)
qed

theorem C7_no_dictionary_witness:
  "ascii (read_all (stream_of (bytes ''attack at dawn''))) \<and>
   (failed (stream_of []) \<or> read_all (stream_of []) = []) \<and>
   AsciiDictionaryAttack (stream_of (bytes ''attack at dawn'')) (stream_of []) = Inr Map.empty"
proof -
  have a: "ascii (read_all (stream_of (bytes ''attack at dawn'')))"
    by (simp add: ascii_def bytes_def)
  have b: "failed (stream_of []) \<or> read_all (stream_of []) = []"
    by simp
  show ?thesis using a b C7_no_dictionary [OF a b] by simp
qed

section \<open>The frequency attack: the minimum search and the tallies\<close>

lemma dless_irrefl [simp]: "\<not> dless a a"
  by (cases a) simp_all

lemma dless_NaN [simp]: "\<not> dless a NaN" "\<not> dless NaN a"
  by (cases a; simp)+

lemma dless_trans: "dless a b \<Longrightarrow> dless b c \<Longrightarrow> dless a c"
  by (cases a; cases b; cases c) simp_all

lemma dless_cases: "a \<noteq> NaN \<Longrightarrow> b \<noteq> NaN \<Longrightarrow> dless a b \<or> a = b \<or> dless b a"
  by (cases a; cases b) auto

lemma incr_empty: "incr Map.empty k = [k \<mapsto> 1]"
  by (simp add: incr_def)

lemma fold_min_dist_step:
  fixes rnd freqs
  defines "D \<equiv> \<lambda>j. ManhattanDist rnd (freqs j)"
  assumes "distinct xs"
  shows "\<exists>sc md. fold (min_dist_step rnd freqs) xs (Map.empty, Fin DBL_MAX) = (sc, md) \<and>
     md \<noteq> NaN \<and> \<not> dless (Fin DBL_MAX) md \<and>
     (md = Fin DBL_MAX \<or> (\<exists>i \<in> set xs. md = D i)) \<and>
     (\<forall>j \<in> set xs. \<not> dless (D j) md) \<and>
     (\<forall>k. sc k = (if k \<in> set xs \<and> D k = md then Some 1 else None))"
  using assms(2)
proof (induction xs rule: rev_induct)
  case Nil
  then show ?case by simp
next
  case (snoc x xs)
  then have dx: "distinct xs" and nx: "x \<notin> set xs" by auto
  from snoc.IH [OF dx] obtain sc md where
    f: "fold (min_dist_step rnd freqs) xs (Map.empty, Fin DBL_MAX) = (sc, md)"
    and nan: "md \<noteq> NaN" and le: "\<not> dless (Fin DBL_MAX) md"
    and att: "md = Fin DBL_MAX \<or> (\<exists>i \<in> set xs. md = D i)"
    and low: "\<forall>j \<in> set xs. \<not> dless (D j) md"
    and sc: "\<forall>k. sc k = (if k \<in> set xs \<and> D k = md then Some 1 else None)"
    by blast
  have step: "fold (min_dist_step rnd freqs) (xs @ [x]) (Map.empty, Fin DBL_MAX) =
      (if dless (D x) md then (incr Map.empty x, D x)
       else if deq (D x) md then (incr sc x, md) else (sc, md))"
    by (simp add: f min_dist_step_def Let_def D_def)
  consider (less) "dless (D x) md" | (eq) "\<not> dless (D x) md" "D x = md"
    | (other) "\<not> dless (D x) md" "D x \<noteq> md" by blast
  then show ?case
  proof cases
    case less
    have n1: "D x \<noteq> NaN" using less by (cases "D x") auto
    have n2: "\<not> dless (Fin DBL_MAX) (D x)" using less le dless_trans by blast
    have n3: "\<forall>j \<in> set (xs @ [x]). \<not> dless (D j) (D x)"
      using less low dless_trans by auto
    have n4: "\<forall>k. (incr Map.empty x) k = (if k \<in> set (xs @ [x]) \<and> D k = D x then Some 1 else None)"
      using less low by (auto simp: incr_empty)
    show ?thesis
      unfolding step using less n1 n2 n3 n4 by auto
  next
    case eq
    have sx: "sc x = None" using sc nx by simp
    have n4: "\<forall>k. (incr sc x) k = (if k \<in> set (xs @ [x]) \<and> D k = md then Some 1 else None)"
      using sc sx eq by (auto simp: incr_def)
    have "deq (D x) md" using eq nan by (simp add: deq_def)
    then show ?thesis
      unfolding step using eq nan le att low n4 by auto
  next
    case other
    have "\<not> deq (D x) md" using other by (simp add: deq_def)
    moreover have "\<forall>k. sc k = (if k \<in> set (xs @ [x]) \<and> D k = md then Some 1 else None)"
      using sc other by auto
    ultimately show ?thesis
      unfolding step using other nan le att low by auto
  qed
qed

lemma FindMinDistShifts_apply:
  "FindMinDistShifts rnd freqs k =
     (if k \<in> {0..127} \<and> min_dist_key (\<lambda>j. ManhattanDist rnd (freqs j)) k then Some 1 else None)"
proof -
  let ?D = "\<lambda>j. ManhattanDist rnd (freqs j)"
  from fold_min_dist_step [OF distinct_all_shifts, of rnd freqs] obtain sc md where
    f: "fold (min_dist_step rnd freqs) all_shifts (Map.empty, Fin DBL_MAX) = (sc, md)"
    and nan: "md \<noteq> NaN" and le: "\<not> dless (Fin DBL_MAX) md"
    and att: "md = Fin DBL_MAX \<or> (\<exists>i \<in> {0..127}. md = ?D i)"
    and low: "\<forall>j \<in> {0..127}. \<not> dless (?D j) md"
    and sc: "\<forall>k. sc k = (if k \<in> {0..127} \<and> ?D k = md then Some 1 else None)"
    unfolding set_all_shifts by blast
  have "min_dist_key ?D k \<longleftrightarrow> ?D k = md" if k: "k \<in> {0..127}"
  proof
    assume "?D k = md"
    then show "min_dist_key ?D k"
      using nan le low by (simp add: min_dist_key_def)
  next
    assume m: "min_dist_key ?D k"
    then have a: "?D k \<noteq> NaN" and b: "\<not> dless (Fin DBL_MAX) (?D k)"
      and c: "\<forall>j \<in> {0..127}. \<not> dless (?D j) (?D k)"
      by (simp_all add: min_dist_key_def)
    have "\<not> dless md (?D k)"
      using att b c by auto
    moreover have "\<not> dless (?D k) md" using low k by blast
    ultimately show "?D k = md"
      using dless_cases [OF a nan] by blast
  qed
  then show ?thesis
    by (simp add: FindMinDistShifts_def f sc)
qed

lemma tally_inner:
  "for_each (tally rnd cur) ss f = Inr f' \<Longrightarrow> distinct ss \<Longrightarrow>
   f' s i = (if s \<in> set ss \<and> (cur + s) smod kAsciiAlphabetSize = i
             then dinc rnd (f s i) else f s i)"
proof (induction ss arbitrary: f)
  case Nil
  then show ?case by simp
next
  case (Cons a ss)
  from Cons.prems(1) obtain f1 where
    a: "tally rnd cur a f = Inr f1" and r: "for_each (tally rnd cur) ss f1 = Inr f'"
    by (auto split: sum.splits)
  from Cons.prems(2) have d: "distinct ss" and na: "a \<notin> set ss" by auto
  have f1: "f1 = f(a := (f a)((cur + a) smod kAsciiAlphabetSize :=
                 dinc rnd (f a ((cur + a) smod kAsciiAlphabetSize))))"
    using a by (auto simp: tally_def Let_def split: if_splits)
  show ?case
    using Cons.IH [OF r d] na by (auto simp: f1)
qed

lemma tally_inner_ok:
  "0 \<le> cur \<Longrightarrow> cur \<le> 127 \<Longrightarrow> \<forall>s \<in> set ss. 0 \<le> s \<Longrightarrow>
   \<exists>f'. for_each (tally rnd cur) ss f = Inr f'"
proof (induction ss arbitrary: f)
  case Nil
  then show ?case by simp
next
  case (Cons a ss)
  have "\<exists>f1. tally rnd cur a f = Inr f1"
    using shifted_range [of cur a] Cons.prems
    by (simp add: tally_def Let_def) (simp add: kAsciiAlphabetSize_def)
  then show ?case using Cons by auto
qed

lemma freq_step_Inr:
  "freq_step rnd c (f, n) = Inr st1 \<Longrightarrow>
   \<exists>f1. for_each (tally rnd c) all_shifts f = Inr f1 \<and> st1 = (f1, dinc rnd n)"
  by (auto simp: freq_step_def split: sum.splits)

lemma freq_outer:
  "for_each (freq_step rnd) cs (f, n) = Inr (f', n') \<Longrightarrow>
   f' s i = (if s \<in> {0..127} then tallied rnd f cs s i else f s i) \<and>
   n' = (dinc rnd ^^ length cs) n"
proof (induction cs arbitrary: f n)
  case Nil
  then show ?case by (simp add: tallied_def)
next
  case (Cons c cs)
  from Cons.prems obtain st1 where
    s1: "freq_step rnd c (f, n) = Inr st1" and r1: "for_each (freq_step rnd) cs st1 = Inr (f', n')"
    by (auto split: sum.splits)
  from freq_step_Inr [OF s1] obtain f1 where
    a: "for_each (tally rnd c) all_shifts f = Inr f1" and st1: "st1 = (f1, dinc rnd n)"
    by blast
  note r = r1 [unfolded st1]
  note t = tally_inner [OF a distinct_all_shifts, of s i, unfolded set_all_shifts]
  show ?case
    using Cons.IH [OF r] t
    by (auto simp: tallied_def funpow_swap1)
qed

lemma freq_outer_ok:
  "ascii cs \<Longrightarrow> \<exists>st'. for_each (freq_step rnd) cs st = Inr st'"
proof (induction cs arbitrary: st)
  case Nil
  then show ?case by simp
next
  case (Cons c cs)
  then have "0 \<le> c" "c \<le> 127" "ascii cs" by (auto simp: ascii_def)
  moreover from this obtain f1 where "for_each (tally rnd c) all_shifts (fst st) = Inr f1"
    using tally_inner_ok [of c all_shifts rnd "fst st"] by (auto simp: set_all_shifts)
  ultimately show ?case using Cons.IH by (simp add: freq_step_def)
qed

lemma min_dist_key_cong:
  "\<forall>j \<in> {0..127}. D j = D' j \<Longrightarrow> k \<in> {0..127} \<Longrightarrow> min_dist_key D k = min_dist_key D' k"
  by (simp add: min_dist_key_def)

lemma freq_attack_score:
  assumes "AsciiFrequencyAnalysisAttack rnd freqs0 ins = Inr m"
  shows "m k = (if k \<in> {0..127} \<and> min_dist_key (shift_dist rnd freqs0 (read_all ins)) k
                then Some 1 else None)"
proof -
  from assms obtain f n where
    run: "for_each (freq_step rnd) (read_all ins) (freqs0, Fin 0) = Inr (f, n)"
    and m: "m = FindMinDistShifts rnd (\<lambda>shift i. ddiv rnd (f shift i) n)"
    by (auto simp: AsciiFrequencyAnalysisAttack_def split: sum.splits)
  have "ManhattanDist rnd (\<lambda>i. ddiv rnd (f j i) n) = shift_dist rnd freqs0 (read_all ins) j"
    if "j \<in> {0..127}" for j
    using freq_outer [OF run, of j] that
    by (simp add: shift_dist_def observed_def [abs_def])
  then have "min_dist_key (\<lambda>j. ManhattanDist rnd (\<lambda>i. ddiv rnd (f j i) n)) k =
             min_dist_key (shift_dist rnd freqs0 (read_all ins)) k" if "k \<in> {0..127}"
    using that by (intro min_dist_key_cong) auto
  then show ?thesis
    unfolding m FindMinDistShifts_apply by auto
qed

lemma freq_attack_total:
  "ascii (read_all ins) \<Longrightarrow> \<exists>m. AsciiFrequencyAnalysisAttack rnd freqs0 ins = Inr m"
  using freq_outer_ok [of "read_all ins" rnd "(freqs0, Fin 0)"]
  by (auto simp: AsciiFrequencyAnalysisAttack_def split: sum.splits)

subsection \<open>No character at all\<close>

lemma ddiv_by_zero: "ddiv rnd x (Fin 0) \<in> {PInf, NInf, NaN}"
  by (cases x) auto

lemma fin_cases: "fin rnd x = PInf \<or> fin rnd x = NInf \<or> (\<exists>r. fin rnd x = Fin r)"
  by (simp add: fin_def Let_def)

lemma abs_diff_special:
  assumes "a \<in> {PInf, NInf, NaN}"
  shows "dabs (dsub rnd a (fin rnd x)) \<in> {PInf, NaN}"
  using assms fin_cases [of rnd x] by (auto simp: dsub_def)

lemma dadd_special: "s \<in> {PInf, NaN} \<Longrightarrow> t \<in> {PInf, NaN} \<Longrightarrow> dadd rnd s t \<in> {PInf, NaN}"
  by auto

lemma dadd_zero_special: "t \<in> {PInf, NaN} \<Longrightarrow> dadd rnd (Fin 0) t \<in> {PInf, NaN}"
  by auto

lemma sum_special:
  "s \<in> {PInf, NaN} \<Longrightarrow> \<forall>i \<in> set is. obs i \<in> {PInf, NInf, NaN} \<Longrightarrow>
   fold (\<lambda>i sum. dadd rnd sum (dabs (dsub rnd (obs i) (freq_distro rnd i)))) is s \<in> {PInf, NaN}"
proof (induction "is" arbitrary: s)
  case Nil
  then show ?case by simp
next
  case (Cons i "is")
  have "dabs (dsub rnd (obs i) (freq_distro rnd i)) \<in> {PInf, NaN}"
    unfolding freq_distro_def using Cons.prems(2) by (intro abs_diff_special) simp
  then have "dadd rnd s (dabs (dsub rnd (obs i) (freq_distro rnd i))) \<in> {PInf, NaN}"
    using Cons.prems(1) by (intro dadd_special)
  then show ?case using Cons.IH Cons.prems(2) by simp
qed

lemma ManhattanDist_special:
  assumes "\<forall>i \<in> {0..127}. obs i \<in> {PInf, NInf, NaN}"
  shows "ManhattanDist rnd obs \<in> {PInf, NaN}"
proof -
  have l: "[0..kAsciiAlphabetSize - 1] = 0 # [1..127]"
    by (simp add: kAsciiAlphabetSize_def upto_rec1)
  have "dabs (dsub rnd (obs 0) (freq_distro rnd 0)) \<in> {PInf, NaN}"
    unfolding freq_distro_def using assms by (intro abs_diff_special) simp
  then have "dadd rnd (Fin 0) (dabs (dsub rnd (obs 0) (freq_distro rnd 0))) \<in> {PInf, NaN}"
    by (rule dadd_zero_special)
  moreover have "\<forall>i \<in> set [1..127]. obs i \<in> {PInf, NInf, NaN}"
    using assms by simp
  ultimately show ?thesis
    unfolding ManhattanDist_def l using sum_special [of _ "[1..127]" obs rnd] by simp
qed

lemma freq_attack_nothing:
  assumes "read_all ins = []"
  shows "AsciiFrequencyAnalysisAttack rnd freqs0 ins = Inr Map.empty"
proof -
  have sp: "shift_dist rnd freqs0 [] k \<in> {PInf, NaN}" for k
    unfolding shift_dist_def
    using ddiv_by_zero by (intro ManhattanDist_special) (simp add: observed_def)
  have "\<not> min_dist_key (shift_dist rnd freqs0 []) k" for k
    using sp [of k] by (auto simp: min_dist_key_def)
  moreover obtain m where m: "AsciiFrequencyAnalysisAttack rnd freqs0 ins = Inr m"
    using freq_attack_total [of ins rnd freqs0] assms by (auto simp: ascii_def)
  ultimately have "m k = None" for k
    using freq_attack_score [OF m, of k] assms by simp
  with m show ?thesis by (simp add: fun_eq_iff)
qed

subsection \<open>Some characters: every distance is an ordinary number\<close>

lemma DBL_MAX_large: "2 ^ 53 \<le> DBL_MAX"
proof -
  have "(1::real) * 2 ^ 53 \<le> (2 ^ 53 - 1) * 2 ^ 971"
    by (intro mult_mono power_increasing) simp_all
  then show ?thesis by (simp only: DBL_MAX_def mult_1)
qed

lemma rounding_mono: "rounding rnd \<Longrightarrow> x \<le> y \<Longrightarrow> rnd x \<le> rnd y"
  by (simp add: rounding_def)

lemma rounding_int: "rounding rnd \<Longrightarrow> \<bar>k\<bar> \<le> 2 ^ 53 \<Longrightarrow> rnd (of_int k) = of_int k"
  by (simp add: rounding_def)

lemma rounding_nat: "rounding rnd \<Longrightarrow> n \<le> 2 ^ 53 \<Longrightarrow> rnd (real n) = real n"
  using rounding_int [of rnd "int n"] by simp

lemma fin_between:
  assumes "rounding rnd" and "of_int a \<le> x" and "x \<le> of_int b"
    and "\<bar>a\<bar> \<le> 2 ^ 53" and "\<bar>b\<bar> \<le> 2 ^ 53"
  shows "fin rnd x = Fin (rnd x) \<and> of_int a \<le> rnd x \<and> rnd x \<le> of_int b"
proof -
  have lo: "of_int a \<le> rnd x"
    using rounding_mono [OF assms(1,2)] rounding_int [OF assms(1,4)] by simp
  have hi: "rnd x \<le> of_int b"
    using rounding_mono [OF assms(1,3)] rounding_int [OF assms(1,5)] by simp
  have "real_of_int b \<le> 2 ^ 53" "- (2 ^ 53) \<le> real_of_int a"
    using assms(4,5) by (simp_all add: abs_le_iff)
  with lo hi DBL_MAX_large have "rnd x \<le> DBL_MAX" "- DBL_MAX \<le> rnd x" by linarith+
  with lo hi show ?thesis by (simp add: fin_def Let_def)
qed

lemma dinc_counted:
  assumes "rounding rnd"
  shows "dinc rnd (counted n) = counted (Suc n)"
proof (cases "n < 2 ^ 53")
  case True
  then have le: "Suc n \<le> 2 ^ 53" by simp
  have r: "rnd (real n + 1) = real n + 1"
    using rounding_nat [OF assms le] by (simp add: add.commute)
  have "real (Suc n) \<le> 2 ^ 53"
    using le by (metis of_nat_le_iff of_nat_numeral of_nat_power)
  then have "fin rnd (real n + 1) = Fin (real n + 1)"
    using DBL_MAX_large by (simp add: fin_def Let_def r)
  with True show ?thesis
    by (simp add: counted_def dinc_def min_def add.commute)
next
  case False
  have "rnd (2 ^ 53 + 1) = 2 ^ 53" using assms by (simp add: rounding_def)
  then have "fin rnd (2 ^ 53 + 1) = Fin (2 ^ 53)"
    using DBL_MAX_large by (simp add: fin_def Let_def)
  with False show ?thesis
    by (simp add: counted_def dinc_def min_def)
qed

lemma counted_funpow:
  assumes "rounding rnd"
  shows "(dinc rnd ^^ n) (Fin 0) = counted n"
proof (induction n)
  case 0
  then show ?case by (simp add: counted_def)
next
  case (Suc n)
  then show ?case by (simp add: dinc_counted [OF assms])
qed

lemma counted_quotient:
  assumes "rounding rnd" and "k \<le> n" and "0 < n"
  shows "\<exists>r. ddiv rnd (counted k) (counted n) = Fin r \<and> 0 \<le> r \<and> r \<le> 1"
proof -
  let ?x = "real (min k (2 ^ 53)) / real (min n (2 ^ 53))"
  have pos: "0 < real (min n (2 ^ 53))" using assms(3) by simp
  have "real (min k (2 ^ 53)) \<le> real (min n (2 ^ 53))" using assms(2) by simp
  with pos have "of_int 0 \<le> ?x" "?x \<le> of_int 1" by simp_all
  from fin_between [OF assms(1) this] have "fin rnd ?x = Fin (rnd ?x) \<and> 0 \<le> rnd ?x \<and> rnd ?x \<le> 1"
    by simp
  with pos show ?thesis by (simp add: counted_def)
qed

lemma table_range: "\<forall>p \<in> set kAsciiFreqDistro. 0 \<le> p \<and> p \<le> 1"
  by (simp add: kAsciiFreqDistro_def)

lemma table_length: "length kAsciiFreqDistro = 128"
  by (simp add: kAsciiFreqDistro_def)

lemma freq_distro_range:
  assumes "rounding rnd" and "i \<in> {0..127}"
  shows "\<exists>p. freq_distro rnd i = Fin p \<and> 0 \<le> p \<and> p \<le> 1"
proof -
  have "nat i < length kAsciiFreqDistro" using assms(2) by (auto simp: table_length)
  then have "kAsciiFreqDistro ! nat i \<in> set kAsciiFreqDistro" by (rule nth_mem)
  with table_range have "of_int 0 \<le> kAsciiFreqDistro ! nat i" "kAsciiFreqDistro ! nat i \<le> of_int 1"
    by auto
  from fin_between [OF assms(1) this] show ?thesis
    by (simp add: freq_distro_def)
qed

lemma abs_diff_range:
  assumes "rounding rnd" and "0 \<le> a" "a \<le> 1" "0 \<le> p" "p \<le> 1"
  shows "\<exists>t. dabs (dsub rnd (Fin a) (Fin p)) = Fin t \<and> 0 \<le> t \<and> t \<le> 1"
proof -
  have "of_int (- 1) \<le> a - p" "a - p \<le> of_int 1" using assms by simp_all
  from fin_between [OF assms(1) this] have "fin rnd (a - p) = Fin (rnd (a - p))"
    and "- 1 \<le> rnd (a - p)" and "rnd (a - p) \<le> 1" by simp_all
  then show ?thesis by (simp add: dsub_def abs_le_iff)
qed

lemma sum_range:
  assumes "rounding rnd"
  shows "\<forall>i \<in> set is. \<exists>a. obs i = Fin a \<and> 0 \<le> a \<and> a \<le> 1 \<Longrightarrow> set is \<subseteq> {0..127} \<Longrightarrow>
    0 \<le> s \<Longrightarrow> s \<le> real n \<Longrightarrow> n + length is \<le> 1000 \<Longrightarrow>
    \<exists>r. fold (\<lambda>i sum. dadd rnd sum (dabs (dsub rnd (obs i) (freq_distro rnd i)))) is (Fin s) = Fin r
        \<and> 0 \<le> r \<and> r \<le> real (n + length is)"
proof (induction "is" arbitrary: s n)
  case Nil
  then show ?case by simp
next
  case (Cons i "is")
  from Cons.prems(1) obtain a where a: "obs i = Fin a" "0 \<le> a" "a \<le> 1" by auto
  from Cons.prems(2) have "i \<in> {0..127}" by simp
  from freq_distro_range [OF assms this] obtain p where p: "freq_distro rnd i = Fin p" "0 \<le> p" "p \<le> 1"
    by blast
  from abs_diff_range [OF assms a(2,3) p(2,3)] obtain t where
    t: "dabs (dsub rnd (Fin a) (Fin p)) = Fin t" "0 \<le> t" "t \<le> 1" by blast
  have "of_int 0 \<le> s + t" "s + t \<le> of_int (int (Suc n))"
    using Cons.prems(3,4) t(2,3) by simp_all
  moreover have "\<bar>int (Suc n)\<bar> \<le> 2 ^ 53" using Cons.prems(5) by simp
  ultimately have f: "fin rnd (s + t) = Fin (rnd (s + t))" "0 \<le> rnd (s + t)" "rnd (s + t) \<le> real (Suc n)"
    using fin_between [OF assms, of 0 "s + t" "int (Suc n)"] by simp_all
  have "\<exists>r. fold (\<lambda>i sum. dadd rnd sum (dabs (dsub rnd (obs i) (freq_distro rnd i)))) is
               (Fin (rnd (s + t))) = Fin r \<and> 0 \<le> r \<and> r \<le> real (Suc n + length is)"
    using Cons.prems by (intro Cons.IH f) simp_all
  then show ?case by (simp add: a p t f)
qed

lemma ManhattanDist_range:
  assumes "rounding rnd" and "\<forall>i \<in> {0..127}. \<exists>a. obs i = Fin a \<and> 0 \<le> a \<and> a \<le> 1"
  shows "\<exists>r. ManhattanDist rnd obs = Fin r \<and> 0 \<le> r \<and> r \<le> 128"
  using sum_range [OF assms(1), of "[0..127]" obs 0 0] assms(2)
  by (simp add: ManhattanDist_def kAsciiAlphabetSize_def)

subsection \<open>The distances of ASCII text from a zero-filled array\<close>

lemma tallied_zero:
  assumes "rounding rnd" and "ascii cs" and "s \<in> {0..127}"
  shows "tallied rnd (\<lambda>_ _. Fin 0) cs s i = counted (histogram cs s i)"
proof -
  have "(c + s) smod kAsciiAlphabetSize = (c + s) mod 128" if "c \<in> set cs" for c
    using that assms(2,3) smod_nonneg [of "c + s"] by (simp add: ascii_def kAsciiAlphabetSize_def)
  then have "filter (\<lambda>cur. (cur + s) smod kAsciiAlphabetSize = i) cs =
             filter (\<lambda>cur. (cur + s) mod 128 = i) cs"
    by (intro filter_cong) simp_all
  then show ?thesis
    by (simp add: tallied_def histogram_def counted_funpow [OF assms(1)])
qed

lemma shift_dist_zero:
  assumes "rounding rnd" and "ascii cs" and "s \<in> {0..127}"
  shows "shift_dist rnd (\<lambda>_ _. Fin 0) cs s = l1_distance rnd cs s"
  by (simp add: shift_dist_def l1_distance_def observed_def [abs_def] normalized_def [abs_def]
        tallied_zero [OF assms] counted_funpow [OF assms(1)])

lemma l1_distance_ordinary:
  assumes "rounding rnd" and "cs \<noteq> []"
  shows "\<exists>r. l1_distance rnd cs s = Fin r \<and> 0 \<le> r \<and> r \<le> 128"
proof -
  have "\<exists>a. normalized rnd cs s i = Fin a \<and> 0 \<le> a \<and> a \<le> 1" for i
    unfolding normalized_def using assms(2)
    by (intro counted_quotient [OF assms(1)]) (simp_all add: histogram_def)
  then show ?thesis
    unfolding l1_distance_def by (intro ManhattanDist_range [OF assms(1)]) simp
qed

lemma min_dist_key_ordinary:
  assumes "\<forall>j \<in> {0..127}. D j = Fin (ds j) \<and> ds j \<le> 128" and "k \<in> {0..127}"
  shows "min_dist_key D k \<longleftrightarrow> (\<forall>j \<in> {0..127}. ds k \<le> ds j)"
proof -
  have "(128::real) \<le> 2 ^ 53" by simp
  with DBL_MAX_large have "128 \<le> DBL_MAX" by linarith
  with assms have "ds k \<le> DBL_MAX" by force
  with assms show ?thesis
    by (auto simp: min_dist_key_def not_less)
qed

lemma rounding_saturating: "rounding saturating"
proof -
  have "saturating x \<le> saturating y" if "x \<le> y" for x y
    using that by (simp add: saturating_def)
  moreover have "saturating (of_int k) = of_int k" if "\<bar>k\<bar> \<le> 2 ^ 53" for k :: int
  proof -
    from that have "real_of_int k \<le> 2 ^ 53" "- (2 ^ 53) \<le> real_of_int k"
      by (simp_all add: abs_le_iff)
    then show ?thesis by (simp add: saturating_def)
  qed
  moreover have "saturating (2 ^ 53 + 1) = 2 ^ 53"
    by (simp add: saturating_def)
  ultimately show ?thesis by (simp add: rounding_def)
qed

text \<open>With a rounding that is exact on the numbers at hand, \<open>ManhattanDist\<close> is the
  L1 distance to the table: the sum over the 128 buckets of the absolute differences.\<close>

lemma saturating_small: "\<bar>x\<bar> \<le> 1000 \<Longrightarrow> saturating x = x"
  by (simp add: saturating_def abs_le_iff)

lemma fin_saturating_small: "\<bar>x\<bar> \<le> 1000 \<Longrightarrow> fin saturating x = Fin x"
proof -
  assume a: "\<bar>x\<bar> \<le> 1000"
  have "of_int (- 1000) \<le> x" "x \<le> of_int 1000" using a by (simp_all add: abs_le_iff)
  from fin_between [OF rounding_saturating this] show ?thesis
    by (simp add: saturating_small [OF a])
qed

lemma sum_exact:
  "\<forall>i \<in> set is. obs i = Fin (a i) \<and> 0 \<le> a i \<and> a i \<le> 1 \<Longrightarrow> set is \<subseteq> {0..127} \<Longrightarrow>
   0 \<le> s \<Longrightarrow> s \<le> real n \<Longrightarrow> n + length is \<le> 1000 \<Longrightarrow>
   fold (\<lambda>i sum. dadd saturating sum (dabs (dsub saturating (obs i) (freq_distro saturating i))))
        is (Fin s) =
     Fin (s + (\<Sum>i\<leftarrow>is. \<bar>a i - kAsciiFreqDistro ! nat i\<bar>))"
proof (induction "is" arbitrary: s n)
  case Nil
  then show ?case by simp
next
  case (Cons i "is")
  let ?p = "kAsciiFreqDistro ! nat i"
  from Cons.prems(1) have a: "obs i = Fin (a i)" "0 \<le> a i" "a i \<le> 1" by auto
  from Cons.prems(2) have "nat i < length kAsciiFreqDistro" by (auto simp: table_length)
  then have "?p \<in> set kAsciiFreqDistro" by (rule nth_mem)
  with table_range have p: "0 \<le> ?p" "?p \<le> 1" by auto
  then have fd: "freq_distro saturating i = Fin ?p"
    by (simp add: freq_distro_def fin_saturating_small)
  have t: "dabs (dsub saturating (Fin (a i)) (Fin ?p)) = Fin \<bar>a i - ?p\<bar>"
    using a p by (simp add: dsub_def fin_saturating_small)
  have t1: "\<bar>a i - ?p\<bar> \<le> 1" using a p by (simp add: abs_le_iff)
  have st: "fin saturating (s + \<bar>a i - ?p\<bar>) = Fin (s + \<bar>a i - ?p\<bar>)"
    using Cons.prems(3,4,5) t1 by (intro fin_saturating_small) simp
  have "fold (\<lambda>i sum. dadd saturating sum (dabs (dsub saturating (obs i) (freq_distro saturating i))))
          is (Fin (s + \<bar>a i - ?p\<bar>)) =
        Fin (s + \<bar>a i - ?p\<bar> + (\<Sum>i\<leftarrow>is. \<bar>a i - kAsciiFreqDistro ! nat i\<bar>))"
    using Cons.prems t1 by (intro Cons.IH [where n = "Suc n"]) simp_all
  then show ?case by (simp add: a fd t st add.assoc)
qed

lemma ManhattanDist_exact:
  assumes "\<forall>i \<in> {0..127}. obs i = Fin (a i) \<and> 0 \<le> a i \<and> a i \<le> 1"
  shows "ManhattanDist saturating obs = Fin (\<Sum>i \<in> {0..127}. \<bar>a i - kAsciiFreqDistro ! nat i\<bar>)"
proof -
  have "(\<Sum>i\<leftarrow>[0..127]. \<bar>a i - kAsciiFreqDistro ! nat i\<bar>) =
        (\<Sum>i \<in> set [0..127]. \<bar>a i - kAsciiFreqDistro ! nat i\<bar>)"
    by (rule sum_list_distinct_conv_sum_set) simp
  then show ?thesis
    using sum_exact [of "[0..127]" obs a 0 0] assms
    by (simp add: ManhattanDist_def kAsciiAlphabetSize_def)
qed

text \<open>The result does depend on what the array holds at the start. When every bucket
  holds an infinity or a NaN, it stays one under \<^verbatim>\<open>++\<close> and under the division, every
  distance is \<open>+\<infinity>\<close> or a NaN, and the map is empty whatever is read.\<close>

lemma dinc_special: "x \<in> {PInf, NInf, NaN} \<Longrightarrow> (dinc rnd ^^ k) x \<in> {PInf, NInf, NaN}"
  by (induction k) (auto simp: dinc_def)

lemma ddiv_special: "a \<in> {PInf, NInf, NaN} \<Longrightarrow> ddiv rnd a b \<in> {PInf, NInf, NaN}"
  by (cases a; cases b) simp_all

lemma special_contents_empty_map:
  assumes "ascii (read_all ins)"
    and "\<forall>s \<in> {0..127}. \<forall>i \<in> {0..127}. freqs0 s i \<in> {PInf, NInf, NaN}"
  shows "AsciiFrequencyAnalysisAttack rnd freqs0 ins = Inr Map.empty"
proof -
  have "observed rnd freqs0 (read_all ins) k i \<in> {PInf, NInf, NaN}"
    if "k \<in> {0..127}" and "i \<in> {0..127}" for k i
    unfolding observed_def tallied_def
    using assms(2) that by (intro ddiv_special dinc_special) blast
  then have sp: "shift_dist rnd freqs0 (read_all ins) k \<in> {PInf, NaN}" if "k \<in> {0..127}" for k
    unfolding shift_dist_def using that by (intro ManhattanDist_special) blast
  have "\<not> min_dist_key (shift_dist rnd freqs0 (read_all ins)) k" if "k \<in> {0..127}" for k
    using sp [OF that] by (auto simp: min_dist_key_def)
  moreover obtain m where m: "AsciiFrequencyAnalysisAttack rnd freqs0 ins = Inr m"
    using freq_attack_total [OF assms(1)] by blast
  ultimately have "m k = None" for k
    using freq_attack_score [OF m, of k] by auto
  with m show ?thesis by (simp add: fun_eq_iff)
qed

lemma initial_contents_matter:
  assumes "ascii (read_all ins)"
  shows "AsciiFrequencyAnalysisAttack rnd (\<lambda>_ _. NaN) ins = Inr Map.empty"
  using assms by (rule special_contents_empty_map) simp

text \<open>Such contents are what a call on an empty stream leaves behind: it divides every
  bucket by \<^verbatim>\<open>num_chars = 0\<close>.\<close>

lemma freqs_at_return_nothing:
  "read_all ins = [] \<Longrightarrow>
   freqs_at_return rnd freqs0 ins = Inr (\<lambda>shift i. ddiv rnd (freqs0 shift i) (Fin 0))"
  by (simp add: freqs_at_return_def)

lemma freqs_at_return_total:
  "ascii (read_all ins) \<Longrightarrow> \<exists>left. freqs_at_return rnd freqs0 ins = Inr left"
  using freq_outer_ok [of "read_all ins" rnd "(freqs0, Fin 0)"]
  by (auto simp: freqs_at_return_def split: sum.splits)

lemma after_empty_call:
  assumes "ascii (read_all ins)"
  shows "AsciiFrequencyAnalysisAttack rnd (\<lambda>shift i. ddiv rnd (freqs0 shift i) (Fin 0)) ins =
         Inr Map.empty"
proof (rule special_contents_empty_map [OF assms], intro ballI)
  fix s i :: int
  show "ddiv rnd (freqs0 s i) (Fin 0) \<in> {PInf, NInf, NaN}"
    by (rule ddiv_by_zero)
qed

section \<open>The claims about the frequency attack\<close>

text \<open>
  Once the array starts zero-filled, which the source leaves to chance, the attack on
  non-empty ASCII ciphertext returns the shifts in \<open>0..127\<close> whose normalized histogram
  has the least distance \<open>ManhattanDist\<close> to the reference table, every tie included,
  each with the value 1; every distance is then a finite number \<open>ds s\<close>.
\<close>

lemma zero_filled_minimum_distance_keys:
  assumes "rounding rnd" and "ascii (read_all ins)" and "read_all ins \<noteq> []"
  shows "\<exists>m ds. AsciiFrequencyAnalysisAttack rnd (\<lambda>_ _. Fin 0) ins = Inr m \<and>
     (\<forall>s \<in> {0..127}. l1_distance rnd (read_all ins) s = Fin (ds s)) \<and>
     dom m = {k \<in> {0..127}. \<forall>j \<in> {0..127}. ds k \<le> ds j} \<and>
     (\<forall>k \<in> dom m. m k = Some 1)"
proof -
  let ?cs = "read_all ins"
  from freq_attack_total [OF assms(2)] obtain m where
    m: "AsciiFrequencyAnalysisAttack rnd (\<lambda>_ _. Fin 0) ins = Inr m" by blast
  define ds where "ds s = (THE r. l1_distance rnd ?cs s = Fin r)" for s
  have d: "l1_distance rnd ?cs s = Fin (ds s) \<and> ds s \<le> 128" for s
    using l1_distance_ordinary [OF assms(1,3), of s] by (auto simp: ds_def)
  have sd: "\<forall>j \<in> {0..127}. shift_dist rnd (\<lambda>_ _. Fin 0) ?cs j = Fin (ds j) \<and> ds j \<le> 128"
    using shift_dist_zero [OF assms(1,2)] d by simp
  have key: "m k = (if k \<in> {0..127} \<and> (\<forall>j \<in> {0..127}. ds k \<le> ds j) then Some 1 else None)"
    for k
    using freq_attack_score [OF m, of k] min_dist_key_ordinary [OF sd, of k] by auto
  have "dom m = {k \<in> {0..127}. \<forall>j \<in> {0..127}. ds k \<le> ds j}"
    by (auto simp: dom_def key)
  moreover have "\<forall>k \<in> dom m. m k = Some 1"
    by (auto simp: dom_def key split: if_splits)
  ultimately show ?thesis using m d by blast
qed

text \<open>
  C4. The source does not fill the array, so the keys of the result are not the shifts of
  least distance of the histograms. A call on an empty stream leaves in every bucket what
  it held divided by 0, an infinity or a NaN. A call that finds these in its array, on
  the one-byte ciphertext \<open>a\<close>, returns the empty map: no shift is a key, although one of
  the 128 shifts has the least distance.
\<close>

theorem C4_stale_array_empty_map:
  "freqs_at_return rnd freqs0 (stream_of []) =
     Inr (\<lambda>shift i. ddiv rnd (freqs0 shift i) (Fin 0)) \<and>
   AsciiFrequencyAnalysisAttack rnd (\<lambda>shift i. ddiv rnd (freqs0 shift i) (Fin 0))
     (stream_of (bytes ''a'')) = Inr Map.empty"
proof -
  have "ascii (read_all (stream_of (bytes ''a'')))"
    by (simp add: ascii_def bytes_def)
  then show ?thesis
    by (simp add: freqs_at_return_nothing after_empty_call)
qed

section \<open>Encrypting, then attacking\<close>

lemma cipher_written:
  assumes "\<not> failed ins" and "\<not> ofailed os"
  shows "AsciiCaesarCipher ins os K =
     (kSuccess, os\<lparr>written := written os @ map (\<lambda>cur. (cur + K) smod kAsciiAlphabetSize) (read_all ins)\<rparr>)"
proof -
  have "fold (\<lambda>cur os. put (g cur) os) cs os = os\<lparr>written := written os @ map g cs\<rparr>"
    for g :: "int \<Rightarrow> int" and cs os
    by (induction cs arbitrary: os) (simp_all add: put_def)
  with assms show ?thesis
    by (simp add: AsciiCaesarCipher_def)
qed

lemma shifted_twice:
  assumes "0 \<le> c" and "0 \<le> K" and "0 \<le> s"
  shows "((c + K) smod kAsciiAlphabetSize + s) smod kAsciiAlphabetSize =
         (c + (s + K) mod 128) smod kAsciiAlphabetSize"
proof -
  have a: "(c + K) smod kAsciiAlphabetSize = (c + K) mod 128"
    using assms smod_nonneg [of "c + K"] by (simp add: kAsciiAlphabetSize_def)
  have b: "((c + K) mod 128 + s) smod kAsciiAlphabetSize = ((c + K) mod 128 + s) mod 128"
    using assms smod_nonneg [of "(c + K) mod 128 + s"] by (simp add: kAsciiAlphabetSize_def)
  have c: "(c + (s + K) mod 128) smod kAsciiAlphabetSize = (c + (s + K) mod 128) mod 128"
    using assms smod_nonneg [of "c + (s + K) mod 128"] by (simp add: kAsciiAlphabetSize_def)
  show ?thesis
    unfolding a b c by (simp add: mod_simps ac_simps)
qed

lemma key_score_translate:
  assumes "ascii cs" and "0 \<le> K" and "0 \<le> s"
  shows "key_score d s (map (\<lambda>cur. (cur + K) smod kAsciiAlphabetSize) cs) =
         key_score d ((s + K) mod 128) cs"
proof -
  have "map (\<lambda>cur. (cur + s) smod kAsciiAlphabetSize)
          (map (\<lambda>cur. (cur + K) smod kAsciiAlphabetSize) cs) =
        map (\<lambda>cur. (cur + (s + K) mod 128) smod kAsciiAlphabetSize) cs"
    using assms by (auto simp: ascii_def intro!: shifted_twice)
  then show ?thesis
    by (simp only: key_score_def shift_scan_map)
qed

lemma encrypt_then_attack:
  assumes "ascii (read_all ins)" and "0 \<le> K" and "\<not> failed ins" and "\<not> ofailed os"
    and "written os = []" and "s \<in> {0..127}"
  shows "\<exists>os'. AsciiCaesarCipher ins os K = (kSuccess, os') \<and>
     result_at (AsciiDictionaryAttack (stream_of (written os')) dict_is) s =
       result_at (AsciiDictionaryAttack (stream_of (read_all ins)) dict_is) ((s + K) mod 128)"
proof -
  let ?pt = "read_all ins"
  let ?ct = "map (\<lambda>cur. (cur + K) smod kAsciiAlphabetSize) ?pt"
  let ?os = "os\<lparr>written := written os @ ?ct\<rparr>"
  let ?t = "(s + K) mod 128"
  have c: "AsciiCaesarCipher ins os K = (kSuccess, ?os)"
    using assms(3,4) by (rule cipher_written)
  have w: "written ?os = ?ct" using assms(5) by simp
  have s: "0 \<le> s" "s \<le> 127" and t: "0 \<le> ?t" "?t \<le> 127"
    using assms(6) by simp_all
  have act: "ascii (read_all (stream_of ?ct))"
    using assms(1,2) shifted_range [of _ K] by (auto simp: ascii_def)
  have apt: "ascii (read_all (stream_of ?pt))" using assms(1) by simp
  have d: "result_at (AsciiDictionaryAttack (stream_of ?ct) dict_is) s =
           result_at (AsciiDictionaryAttack (stream_of ?pt) dict_is) ?t"
    using dict_attack_result_at [OF act s] dict_attack_result_at [OF apt t(1,2)]
      key_score_translate [OF assms(1,2) s(1)]
    by simp
  show ?thesis
    using c d by (simp add: w)
qed

lemma shift_zero: "ascii cs \<Longrightarrow> map (\<lambda>cur. (cur + 0) smod kAsciiAlphabetSize) cs = cs"
proof -
  assume "ascii cs"
  then have "(c + 0) smod kAsciiAlphabetSize = c" if "c \<in> set cs" for c
    using that smod_nonneg [of c] by (auto simp: ascii_def kAsciiAlphabetSize_def)
  then show ?thesis by (simp add: map_idI)
qed

lemma length_filter_mono:
  "\<forall>x \<in> set xs. P x \<longrightarrow> Q x \<Longrightarrow> length (filter P xs) \<le> length (filter Q xs)"
  by (induction xs) auto

lemma plaintext_words_matched:
  assumes "ascii cs" and "set (plaintext_words cs) \<subseteq> d"
  shows "length (plaintext_words cs) \<le> matches d 0 cs"
  unfolding matches_def shift_zero [OF assms(1)] plaintext_words_def
  using assms(2) by (intro length_filter_mono) (auto simp: plaintext_words_def)

lemma inverse_key_present:
  assumes "ascii (read_all ins)" and "0 \<le> K" and "K \<le> 127" and "\<not> failed ins"
    and "\<not> ofailed os" and "written os = []"
    and "plaintext_words (read_all ins) \<noteq> []"
    and "set (plaintext_words (read_all ins)) \<subseteq> LoadDictionary dict_is"
  shows "\<exists>os' v. AsciiCaesarCipher ins os K = (kSuccess, os') \<and>
     result_at (AsciiDictionaryAttack (stream_of (written os')) dict_is) ((128 - K) mod 128) =
       Inr (Some v) \<and>
     int (length (plaintext_words (read_all ins))) \<le> v"
proof -
  let ?s = "(128 - K) mod 128"
  have s: "?s \<in> {0..127}" by simp
  have z: "(?s + K) mod 128 = 0" by (simp add: mod_simps)
  from encrypt_then_attack [OF assms(1,2,4,5,6) s, of dict_is] obtain os' where
    c: "AsciiCaesarCipher ins os K = (kSuccess, os')"
    and d: "result_at (AsciiDictionaryAttack (stream_of (written os')) dict_is) ?s =
            result_at (AsciiDictionaryAttack (stream_of (read_all ins)) dict_is) 0"
    unfolding z by blast
  have n: "length (plaintext_words (read_all ins)) \<le> matches (LoadDictionary dict_is) 0 (read_all ins)"
    using assms(1,8) by (rule plaintext_words_matched)
  moreover from assms(7) have "0 < length (plaintext_words (read_all ins))" by simp
  ultimately have p: "matches (LoadDictionary dict_is) 0 (read_all ins) \<noteq> 0" by linarith
  have "result_at (AsciiDictionaryAttack (stream_of (read_all ins)) dict_is) 0 =
        Inr (Some (int (matches (LoadDictionary dict_is) 0 (read_all ins))))"
    using dict_attack_result_at [of "stream_of (read_all ins)" 0 dict_is] assms(1) p
    by (simp add: key_score_matches)
  with c d n show ?thesis by auto
qed

text \<open>The inverse key need not have the highest score, even when the dictionary holds
  exactly the words of the plaintext: for \<open>p a1a1a1a\<close> under key 27 the inverse key 101
  scores 2, and the key 84, which turns every \<open>1\<close> into a space and every \<open>a\<close> into
  \<open>p\<close>, scores 4.\<close>

lemma inverse_key_not_top_scoring:
  "result_at (AsciiDictionaryAttack
                (stream_of (map (\<lambda>cur. (cur + 27) smod kAsciiAlphabetSize) (bytes ''p a1a1a1a'')))
                (stream_of (bytes ''p'' @ 10 # bytes ''a1a1a1a'' @ [10]))) 101 = Inr (Some 2) \<and>
   result_at (AsciiDictionaryAttack
                (stream_of (map (\<lambda>cur. (cur + 27) smod kAsciiAlphabetSize) (bytes ''p a1a1a1a'')))
                (stream_of (bytes ''p'' @ 10 # bytes ''a1a1a1a'' @ [10]))) 84 = Inr (Some 4)"
proof -
  let ?ct = "map (\<lambda>cur. (cur + 27) smod kAsciiAlphabetSize) (bytes ''p a1a1a1a'')"
  have ct: "?ct = [11, 59, 124, 76, 124, 76, 124, 76, 124]"
    by code_simp
  have a: "ascii (read_all (stream_of ?ct))"
    unfolding ct by (simp add: ascii_def)
  have d: "LoadDictionary (stream_of (bytes ''p'' @ 10 # bytes ''a1a1a1a'' @ [10])) =
           {bytes ''p'', bytes ''a1a1a1a''}"
    by code_simp
  have k: "list_all (key_score_is {bytes ''p'', bytes ''a1a1a1a''}
                       [11, 59, 124, 76, 124, 76, 124, 76, 124]
                       (\<lambda>s. if s = 101 then Some 2 else Some 4)) [84, 101]"
    by code_simp
  have "result_at (AsciiDictionaryAttack (stream_of ?ct)
                     (stream_of (bytes ''p'' @ 10 # bytes ''a1a1a1a'' @ [10]))) s =
        Inr (key_score {bytes ''p'', bytes ''a1a1a1a''} s [11, 59, 124, 76, 124, 76, 124, 76, 124])"
    if "s = 101 \<or> s = 84" for s
    using dict_attack_result_at [OF a, of s] that by (auto simp: ct d)
  then show ?thesis
    using k by (simp add: key_score_is_def)
qed

lemma dawn_ciphertext_bytes:
  "read_all dawn_ciphertext = [124, 15, 15, 124, 126, 6, 59, 124, 15, 59, 127, 124, 18, 9]"
proof -
  have "AsciiCaesarCipher (stream_of (bytes ''attack at dawn'')) fresh_ostream 27 =
          (kSuccess, fresh_ostream\<lparr>written := written fresh_ostream @
             map (\<lambda>cur. (cur + 27) smod kAsciiAlphabetSize)
               (read_all (stream_of (bytes ''attack at dawn'')))\<rparr>)"
    by (rule cipher_written) (simp_all add: stream_of_def fresh_ostream_def)
  then have "read_all dawn_ciphertext =
          map (\<lambda>cur. (cur + 27) smod kAsciiAlphabetSize) (bytes ''attack at dawn'')"
    by (simp add: dawn_ciphertext_def fresh_ostream_def)
  also have "\<dots> = [124, 15, 15, 124, 126, 6, 59, 124, 15, 59, 127, 124, 18, 9]"
    by code_simp
  finally show ?thesis .
qed

lemma dawn_dictionary_words:
  "LoadDictionary dawn_dictionary = {bytes ''attack'', bytes ''at'', bytes ''dawn''}"
  by code_simp

lemma dawn_scores:
  "list_all (key_score_is {bytes ''attack'', bytes ''at'', bytes ''dawn''}
               [124, 15, 15, 124, 126, 6, 59, 124, 15, 59, 127, 124, 18, 9]
               (\<lambda>s. if s = 101 then Some 3 else None)) [0..127]"
  by code_simp

lemma dawn_result:
  "AsciiDictionaryAttack dawn_ciphertext dawn_dictionary = Inr [101 \<mapsto> 3]"
proof -
  have "ascii (read_all dawn_ciphertext)"
    by (simp add: dawn_ciphertext_bytes ascii_def)
  then obtain m where m: "AsciiDictionaryAttack dawn_ciphertext dawn_dictionary = Inr m"
    using dict_attack_total by blast
  have "\<forall>s \<in> set [0..127].
          key_score_is {bytes ''attack'', bytes ''at'', bytes ''dawn''}
            [124, 15, 15, 124, 126, 6, 59, 124, 15, 59, 127, 124, 18, 9]
            (\<lambda>s. if s = 101 then Some 3 else None) s"
    using dawn_scores by (simp only: list_all_iff)
  then have "m s = (if s = 101 then Some 3 else None)" for s
    using dict_attack_score [OF m, of s]
    by (auto simp: key_score_is_def dawn_ciphertext_bytes dawn_dictionary_words)
  then have "m = [101 \<mapsto> 3]" by (auto simp: fun_eq_iff)
  with m show ?thesis by simp
qed

section \<open>The claims about both attacks\<close>




lemma blank_line_dictionary: "LoadDictionary (stream_of [10]) = {[]}"
  by code_simp

lemma dict_attack_nothing:
  assumes "read_all ins = []" and "[] \<notin> LoadDictionary dict_is"
  shows "AsciiDictionaryAttack ins dict_is = Inr Map.empty"
proof -
  obtain m where m: "AsciiDictionaryAttack ins dict_is = Inr m"
    using dict_attack_total [of ins dict_is] assms(1) by (auto simp: ascii_def)
  have "m s = None" for s
    using dict_attack_score [OF m, of s] assms
    by (simp add: key_score_matches matches_def)
  with m show ?thesis by (simp add: fun_eq_iff)
qed

lemma dict_attack_empty_iff:
  assumes "AsciiDictionaryAttack ins dict_is = Inr m"
  shows "m = Map.empty \<longleftrightarrow>
         (\<forall>s \<in> {0..127}. matches (LoadDictionary dict_is) s (read_all ins) = 0)"
  using dict_attack_score [OF assms]
  by (auto simp: fun_eq_iff key_score_matches split: if_splits)

lemma freq_attack_empty_iff:
  assumes "rounding rnd" and "ascii (read_all ins)"
  shows "\<exists>m. AsciiFrequencyAnalysisAttack rnd (\<lambda>_ _. Fin 0) ins = Inr m \<and>
             (m = Map.empty \<longleftrightarrow> read_all ins = [])"
proof (cases "read_all ins = []")
  case True
  then show ?thesis by (simp add: freq_attack_nothing)
next
  case False
  let ?cs = "read_all ins"
  obtain m where m: "AsciiFrequencyAnalysisAttack rnd (\<lambda>_ _. Fin 0) ins = Inr m"
    using freq_attack_total [OF assms(2)] by blast
  define ds where "ds s = (THE r. l1_distance rnd ?cs s = Fin r)" for s
  have d: "l1_distance rnd ?cs s = Fin (ds s) \<and> ds s \<le> 128" for s
    using l1_distance_ordinary [OF assms(1) False, of s] by (auto simp: ds_def)
  have sd: "\<forall>j \<in> {0..127}. shift_dist rnd (\<lambda>_ _. Fin 0) ?cs j = Fin (ds j) \<and> ds j \<le> 128"
    using shift_dist_zero [OF assms] d by simp
  have "finite (ds ` {0..127})" "ds ` {0..127} \<noteq> {}" by simp_all
  then obtain k where k: "k \<in> {0..127}" "\<forall>j \<in> {0..127}. ds k \<le> ds j"
    using Min_in [of "ds ` {0..127}"] Min_le [of "ds ` {0..127}"]
    by (metis (no_types, lifting) imageE imageI)
  have "m k = Some 1"
    using freq_attack_score [OF m, of k] min_dist_key_ordinary [OF sd k(1)] k by simp
  then have "m \<noteq> Map.empty" by auto
  with m False show ?thesis by simp
qed

text \<open>
  C2. With zero ciphertext bytes the trailing-word loop still looks up the (empty) word
  of each of the 128 shifts: a dictionary stream with a blank line makes every one of
  them a hit. Here the ciphertext is empty, the dictionary is one blank line, and the
  result has all 128 keys.
\<close>

theorem C2_blank_line_scores_every_key:
  "AsciiDictionaryAttack (stream_of []) (stream_of [10]) =
     Inr (\<lambda>k. if 0 \<le> k \<and> k \<le> 127 then Some 1 else None)"
proof -
  obtain m where m: "AsciiDictionaryAttack (stream_of []) (stream_of [10]) = Inr m"
    using dict_attack_total [of "stream_of []" "stream_of [10]"] by (auto simp: ascii_def)
  have "m k = (if 0 \<le> k \<and> k \<le> 127 then Some 1 else None)" for k
    using dict_attack_score [OF m, of k]
    by (simp add: blank_line_dictionary key_score_def shift_scan_def final_score_def bump_def)
  with m show ?thesis by (simp add: fun_eq_iff)
qed

lemma z_scores:
  "list_all (key_score_is {bytes ''attack''} (bytes ''z'') (\<lambda>s. None)) [0..127]"
  by code_simp

lemma attack_dictionary: "LoadDictionary (stream_of (bytes ''attack'' @ [10])) = {bytes ''attack''}"
  by code_simp




section \<open>The remaining claims\<close>

text \<open>
  No key is stored with the value 0. A key of the dictionary attack has as value the
  number of lookups of its shift that found their word in the dictionary, the lookup of
  an empty trailing buffer included, and that number is at least 1. A key of the
  frequency attack has the value 1, and no shift has a smaller distance, as computed from
  what the array held at the start.
\<close>

lemma no_zero_entry:
  "(result_at (AsciiDictionaryAttack ins dict_is) k = Inr (Some v) \<longrightarrow>
      1 \<le> v \<and> v = int (matches (LoadDictionary dict_is) k (read_all ins))) \<and>
   (result_at (AsciiFrequencyAnalysisAttack rnd freqs0 ins) k' = Inr (Some v') \<longrightarrow>
      v' = 1 \<and> k' \<in> {0..127} \<and>
      (\<forall>j \<in> {0..127}. \<not> dless (shift_dist rnd freqs0 (read_all ins) j)
                                 (shift_dist rnd freqs0 (read_all ins) k')))"
proof (intro conjI impI)
  assume "result_at (AsciiDictionaryAttack ins dict_is) k = Inr (Some v)"
  then obtain m where m: "AsciiDictionaryAttack ins dict_is = Inr m" and v: "m k = Some v"
    by (auto simp: result_at_def split: sum.splits)
  from v dict_attack_score [OF m, of k]
  have "v = int (matches (LoadDictionary dict_is) k (read_all ins)) \<and>
        matches (LoadDictionary dict_is) k (read_all ins) \<noteq> 0"
    by (auto simp: key_score_matches split: if_splits)
  then show "1 \<le> v" and "v = int (matches (LoadDictionary dict_is) k (read_all ins))"
    by simp_all
next
  assume "result_at (AsciiFrequencyAnalysisAttack rnd freqs0 ins) k' = Inr (Some v')"
  then obtain m where m: "AsciiFrequencyAnalysisAttack rnd freqs0 ins = Inr m" and v: "m k' = Some v'"
    by (auto simp: result_at_def split: sum.splits)
  from v freq_attack_score [OF m, of k']
  have "v' = 1 \<and> k' \<in> {0..127} \<and> min_dist_key (shift_dist rnd freqs0 (read_all ins)) k'"
    by (auto split: if_splits)
  then show "v' = 1" and "k' \<in> {0..127}"
    and "\<forall>j \<in> {0..127}. \<not> dless (shift_dist rnd freqs0 (read_all ins) j)
                                 (shift_dist rnd freqs0 (read_all ins) k')"
    by (simp_all add: min_dist_key_def)
qed

lemma blank_line_after_word:
  "LoadDictionary (stream_of (bytes ''at'' @ [10, 10])) = {bytes ''at'', []}"
  by code_simp

text \<open>
  C8. A key can be in the result of the dictionary attack although no word matched under
  its shift. Under shift 0 the ciphertext \<open>?!\<close> has no alphanumeric character, so no word
  is formed; the dictionary is the line \<open>at\<close> and a blank line, and the lookup of the
  empty trailing buffer stores key 0 with the score 1.
\<close>

theorem C8_key_without_matched_word:
  "plaintext_words (bytes ''?!'') = [] \<and>
   result_at (AsciiDictionaryAttack (stream_of (bytes ''?!'')) (stream_of (bytes ''at'' @ [10, 10]))) 0 =
     Inr (Some 1)"
proof -
  have a: "ascii (read_all (stream_of (bytes ''?!'')))"
    by (simp add: ascii_def bytes_def)
  have w: "plaintext_words (bytes ''?!'') = []"
    by code_simp
  have k: "key_score {bytes ''at'', []} 0 (bytes ''?!'') = Some 1"
    by code_simp
  show ?thesis
    using dict_attack_result_at [OF a, of 0 "stream_of (bytes ''at'' @ [10, 10])"] w k
    by (simp add: blank_line_after_word)
qed

text \<open>
  C9. Two runs of the frequency attack on the same ciphertext can return different maps.
  Three calls in a row, the array of each at the place of the one before, the first in
  memory that holds zeros: the call on the ciphertext \<open>a\<close> returns a map that is not
  empty; the call on an empty stream divides every bucket by 0; the second call on \<open>a\<close>
  finds these quotients in its array and returns the empty map.
\<close>

theorem C9_second_run_differs:
  assumes "rounding rnd"
  shows "\<exists>m left1 left2.
     AsciiFrequencyAnalysisAttack rnd (\<lambda>_ _. Fin 0) (stream_of (bytes ''a'')) = Inr m \<and>
     m \<noteq> Map.empty \<and>
     freqs_at_return rnd (\<lambda>_ _. Fin 0) (stream_of (bytes ''a'')) = Inr left1 \<and>
     freqs_at_return rnd left1 (stream_of []) = Inr left2 \<and>
     AsciiFrequencyAnalysisAttack rnd left2 (stream_of (bytes ''a'')) = Inr Map.empty"
proof -
  have a: "ascii (read_all (stream_of (bytes ''a'')))"
    by (simp add: ascii_def bytes_def)
  have n: "read_all (stream_of (bytes ''a'')) \<noteq> []"
    by (simp add: bytes_def)
  from freq_attack_empty_iff [OF assms a] n obtain m where
    m: "AsciiFrequencyAnalysisAttack rnd (\<lambda>_ _. Fin 0) (stream_of (bytes ''a'')) = Inr m"
       "m \<noteq> Map.empty"
    by auto
  from freqs_at_return_total [OF a] obtain left1 where
    l1: "freqs_at_return rnd (\<lambda>_ _. Fin 0) (stream_of (bytes ''a'')) = Inr left1"
    by blast
  have l2: "freqs_at_return rnd left1 (stream_of []) =
            Inr (\<lambda>shift i. ddiv rnd (left1 shift i) (Fin 0))"
    by (simp add: freqs_at_return_nothing)
  have "AsciiFrequencyAnalysisAttack rnd (\<lambda>shift i. ddiv rnd (left1 shift i) (Fin 0))
          (stream_of (bytes ''a'')) = Inr Map.empty"
    using a by (rule after_empty_call)
  with m l1 l2 show ?thesis by blast
qed

theorem C9_second_run_differs_witness:
  "rounding saturating \<and>
   (\<exists>m left1 left2.
     AsciiFrequencyAnalysisAttack saturating (\<lambda>_ _. Fin 0) (stream_of (bytes ''a'')) = Inr m \<and>
     m \<noteq> Map.empty \<and>
     freqs_at_return saturating (\<lambda>_ _. Fin 0) (stream_of (bytes ''a'')) = Inr left1 \<and>
     freqs_at_return saturating left1 (stream_of []) = Inr left2 \<and>
     AsciiFrequencyAnalysisAttack saturating left2 (stream_of (bytes ''a'')) = Inr Map.empty)"
  using rounding_saturating C9_second_run_differs [OF rounding_saturating] by blast

text \<open>
  C10. For an ASCII byte and a shift in \<open>0..127\<close> the shifted value, computed with the
  truncating \<^verbatim>\<open>%\<close>, is \<open>(byte + shift) mod 128\<close> and lies in \<open>0..127\<close>. On ASCII input
  neither attacker reaches an index outside of its histogram or an invalid argument of
  a classification function: both return a map.
\<close>

theorem C10_ascii_is_safe:
  assumes "ascii (read_all ins)"
  shows "(\<forall>c \<in> set (read_all ins). \<forall>shift \<in> {0..127}.
           (c + shift) smod kAsciiAlphabetSize = (c + shift) mod 128 \<and>
           0 \<le> (c + shift) smod kAsciiAlphabetSize \<and> (c + shift) smod kAsciiAlphabetSize \<le> 127) \<and>
         (\<exists>m. AsciiDictionaryAttack ins dict_is = Inr m) \<and>
         (\<exists>m. AsciiFrequencyAnalysisAttack rnd freqs0 ins = Inr m)"
proof -
  have "(c + shift) smod kAsciiAlphabetSize = (c + shift) mod 128 \<and>
        0 \<le> (c + shift) smod kAsciiAlphabetSize \<and> (c + shift) smod kAsciiAlphabetSize \<le> 127"
    if "c \<in> set (read_all ins)" and "shift \<in> {0..127}" for c shift
    using that assms shifted_range [of c shift] smod_nonneg [of "c + shift"]
    by (simp add: ascii_def kAsciiAlphabetSize_def)
  then show ?thesis
    using dict_attack_total [OF assms] freq_attack_total [OF assms] by blast
qed

theorem C10_ascii_is_safe_witness:
  "ascii (read_all (stream_of (bytes ''attack at dawn''))) \<and>
   (119 + 27) smod kAsciiAlphabetSize = (18::int) \<and>
   (\<exists>m. AsciiDictionaryAttack (stream_of (bytes ''attack at dawn'')) dawn_dictionary = Inr m) \<and>
   (\<exists>m. AsciiFrequencyAnalysisAttack saturating (\<lambda>_ _. Fin 0)
           (stream_of (bytes ''attack at dawn'')) = Inr m)"
proof -
  have a: "ascii (read_all (stream_of (bytes ''attack at dawn'')))"
    by (simp add: ascii_def bytes_def)
  have "(119::int) \<in> set (read_all (stream_of (bytes ''attack at dawn'')))"
    by (simp add: bytes_def)
  moreover have "(27::int) \<in> {0..127}" by simp
  ultimately have "(119 + 27) smod kAsciiAlphabetSize = (119 + 27) mod (128::int)"
    using C10_ascii_is_safe [OF a, of dawn_dictionary saturating "\<lambda>_ _. Fin 0"] by blast
  then show ?thesis
    using a C10_ascii_is_safe [OF a, of dawn_dictionary saturating "\<lambda>_ _. Fin 0"] by simp
qed

text \<open>Outside of ASCII the failure branches are reached: the byte \<open>0xFE\<close>, which is
  \<open>-2\<close> as a \<^verbatim>\<open>char\<close>, is an invalid argument and an index below the array.\<close>

lemma non_ascii_byte_dictionary:
  "AsciiDictionaryAttack (stream_of [- 2]) dict_is = Inl BadCtypeArgument"
proof -
  have s: "all_shifts = 0 # [1..127]"
    by (simp add: all_shifts_def kAsciiAlphabetSize_def upto_rec1)
  have "dict_shift_step d (- 2) 0 st = Inl BadCtypeArgument" for d st
    by (simp add: dict_shift_step_def ctype_arg_ok_def kAsciiAlphabetSize_def smod_int_alt_def)
  then show ?thesis
    unfolding AsciiDictionaryAttack_def s by simp
qed

lemma non_ascii_byte_frequency:
  "AsciiFrequencyAnalysisAttack rnd freqs0 (stream_of [- 2]) = Inl IndexOutOfBounds"
proof -
  have s: "all_shifts = 0 # [1..127]"
    by (simp add: all_shifts_def kAsciiAlphabetSize_def upto_rec1)
  have "tally rnd (- 2) 0 f = Inl IndexOutOfBounds" for f
    by (simp add: tally_def kAsciiAlphabetSize_def smod_int_alt_def)
  then show ?thesis
    unfolding AsciiFrequencyAnalysisAttack_def freq_step_def s by simp
qed

end
